theory Spec2Isabelle
  imports Complex_Main "HOL-Library.Word"
begin

unbundle bit_operations_syntax

section \<open>Data model (cnn\_accelerator.h)\<close>

type_synonym u8 = "8 word"
type_synonym u16 = "16 word"
type_synonym u32 = "32 word"
type_synonym i16 = "16 word"

text \<open>
  C \<open>int\<close> values (return codes, loop counters, class indices, the completion flag) are
  modelled as HOL integers: none of them is ever incremented past a bound that was itself
  a C \<open>int\<close>, so no signed overflow is involved.  The Xilinx header \<open>xstatus.h\<close> is not
  part of the repository; its two codes have the Xilinx values 0 and 1.
\<close>

definition XST_SUCCESS :: int where "XST_SUCCESS = 0"
definition XST_FAILURE :: int where "XST_FAILURE = 1"

definition CNN_ACCEL_BASE_ADDR :: u32 where "CNN_ACCEL_BASE_ADDR = 0x80000000"
definition DMA_VIDEO_BASE_ADDR :: u32 where "DMA_VIDEO_BASE_ADDR = 0x80010000"
definition DMA_WEIGHTS_BASE_ADDR :: u32 where "DMA_WEIGHTS_BASE_ADDR = 0x80020000"

definition CNN_REG_CONTROL :: u32 where "CNN_REG_CONTROL = 0x00"
definition CNN_REG_STATUS :: u32 where "CNN_REG_STATUS = 0x04"
definition CNN_REG_CONFIG :: u32 where "CNN_REG_CONFIG = 0x08"
definition CNN_REG_INPUT_DIM :: u32 where "CNN_REG_INPUT_DIM = 0x0C"
definition CNN_REG_WEIGHT_ADDR :: u32 where "CNN_REG_WEIGHT_ADDR = 0x10"
definition CNN_REG_BIAS_ADDR :: u32 where "CNN_REG_BIAS_ADDR = 0x14"
definition CNN_REG_INPUT_ADDR :: u32 where "CNN_REG_INPUT_ADDR = 0x18"
definition CNN_REG_OUTPUT_ADDR :: u32 where "CNN_REG_OUTPUT_ADDR = 0x1C"
definition CNN_REG_IRQ_ENABLE :: u32 where "CNN_REG_IRQ_ENABLE = 0x20"
definition CNN_REG_IRQ_STATUS :: u32 where "CNN_REG_IRQ_STATUS = 0x24"
definition CNN_REG_PERF_CYCLES :: u32 where "CNN_REG_PERF_CYCLES = 0x28"
definition CNN_REG_PERF_OPS :: u32 where "CNN_REG_PERF_OPS = 0x2C"

definition CNN_CTRL_START :: u32 where "CNN_CTRL_START = 0x01"
definition CNN_CTRL_STOP :: u32 where "CNN_CTRL_STOP = 0x02"
definition CNN_CTRL_RESET :: u32 where "CNN_CTRL_RESET = 0x04"

definition CNN_STAT_BUSY :: u32 where "CNN_STAT_BUSY = 0x01"
definition CNN_STAT_DONE :: u32 where "CNN_STAT_DONE = 0x02"
definition CNN_STAT_ERROR_MASK :: u32 where "CNN_STAT_ERROR_MASK = 0xF0"

definition CNN_CFG_LAYER_EN_MASK :: u32 where "CNN_CFG_LAYER_EN_MASK = 0x000000FF"
definition CNN_CFG_ACT_MASK :: u32 where "CNN_CFG_ACT_MASK = 0x00000700"
definition CNN_CFG_ACT_SHIFT :: nat where "CNN_CFG_ACT_SHIFT = 8"
definition CNN_CFG_POOL_TYPE :: u32 where "CNN_CFG_POOL_TYPE = 0x00000800"

definition CNN_IRQ_DONE :: u32 where "CNN_IRQ_DONE = 0x01"
definition CNN_IRQ_ERROR :: u32 where "CNN_IRQ_ERROR = 0x02"

definition CNN_MAX_CLASSES :: nat where "CNN_MAX_CLASSES = 100"

datatype CnnActivation_t =
    CNN_ACT_NONE | CNN_ACT_RELU | CNN_ACT_RELU6 | CNN_ACT_LEAKY_RELU
  | CNN_ACT_SIGMOID | CNN_ACT_TANH | CNN_ACT_SWISH

fun activation_code :: "CnnActivation_t \<Rightarrow> u32" where
  "activation_code CNN_ACT_NONE = 0"
| "activation_code CNN_ACT_RELU = 1"
| "activation_code CNN_ACT_RELU6 = 2"
| "activation_code CNN_ACT_LEAKY_RELU = 3"
| "activation_code CNN_ACT_SIGMOID = 4"
| "activation_code CNN_ACT_TANH = 5"
| "activation_code CNN_ACT_SWISH = 6"

datatype CnnPoolType_t = CNN_POOL_MAX | CNN_POOL_AVG

record CnnConfig_t =
  input_width :: u16
  input_height :: u16
  input_channels :: u8
  num_classes :: u8
  layer_enable :: u8
  activation :: CnnActivation_t
  pool_type :: CnnPoolType_t

text \<open>The field \<open>done\<close> of the C struct is called \<open>done_st\<close> here.\<close>

record CnnStatus_t =
  busy :: u8
  done_st :: u8
  error_code :: u8
  cycles :: u32
  operations :: u32

record ClassificationResult_t =
  class_id :: int
  confidence :: real

text \<open>
  Only the \<open>classifications\<close> member of the union is used by the driver.  An array is a
  list that carries its extent; an access outside it is a fault (see below).
\<close>

record InferenceResult_t =
  num_results :: int
  classifications :: "ClassificationResult_t list"

record CnnAccelerator_t =
  base_addr :: u32
  dma_video_addr :: u32
  dma_weights_addr :: u32
  config :: CnnConfig_t
  weight_mem_addr :: u32
  bias_mem_addr :: u32
  input_frame_addr :: u32
  output_result_addr :: u32
  inference_done :: int

section \<open>The hardware seen from the driver\<close>

text \<open>
  Every effect of the driver on the outside is appended to a log: register writes and
  reads (\<open>Xil_Out32\<close>, \<open>Xil_In32\<close>), cache maintenance, \<open>usleep\<close> and \<open>memcpy\<close> into
  device memory.  What the hardware answers is not decided by the driver: the value
  returned by the \<open>n\<close>-th register read (counted from 0) at an address is given by
  \<open>reg_in\<close>, and the 16-bit words the accelerator left in DDR by \<open>ddr_i16\<close>.
\<close>

datatype hw_event =
    Out32 u32 u32
  | In32 u32 u32
  | DCacheFlushRange u32 u32
  | DCacheInvalidateRange u32 u32
  | Usleep nat
  | Memcpy u32 "i16 list" u32

record world =
  reads :: nat
  events :: "hw_event list"

record device =
  reg_in :: "nat \<Rightarrow> u32 \<Rightarrow> u32"
  ddr_i16 :: "u32 \<Rightarrow> nat \<Rightarrow> i16"

definition emit :: "hw_event \<Rightarrow> world \<Rightarrow> world" where
  "emit e w = w\<lparr>events := events w @ [e]\<rparr>"

definition Xil_Out32 :: "u32 \<Rightarrow> u32 \<Rightarrow> world \<Rightarrow> world" where
  "Xil_Out32 a v w = emit (Out32 a v) w"

definition Xil_In32 :: "device \<Rightarrow> u32 \<Rightarrow> world \<Rightarrow> u32 \<times> world" where
  "Xil_In32 dev a w =
     (let v = reg_in dev (reads w) a
      in (v, emit (In32 a v) (w\<lparr>reads := Suc (reads w)\<rparr>)))"

definition usleep :: "nat \<Rightarrow> world \<Rightarrow> world" where
  "usleep us w = emit (Usleep us) w"

definition CNN_WRITE_REG :: "CnnAccelerator_t \<Rightarrow> u32 \<Rightarrow> u32 \<Rightarrow> world \<Rightarrow> world" where
  "CNN_WRITE_REG cnn offset val w = Xil_Out32 (base_addr cnn + offset) val w"

definition CNN_READ_REG :: "device \<Rightarrow> CnnAccelerator_t \<Rightarrow> u32 \<Rightarrow> world \<Rightarrow> u32 \<times> world" where
  "CNN_READ_REG dev cnn offset w = Xil_In32 dev (base_addr cnn + offset) w"

text \<open>Observations of a log: the register writes in it and the time spent sleeping.\<close>

fun is_write :: "hw_event \<Rightarrow> bool" where
  "is_write (Out32 a v) = True"
| "is_write e = False"

fun sleep_of :: "hw_event \<Rightarrow> nat" where
  "sleep_of (Usleep us) = us"
| "sleep_of e = 0"

definition writes_of :: "world \<Rightarrow> hw_event list" where
  "writes_of w = filter is_write (events w)"

definition slept_us :: "world \<Rightarrow> nat" where
  "slept_us w = sum_list (map sleep_of (events w))"

section \<open>Floating point\<close>

text \<open>
  A C \<open>float\<close> value is modelled by the real number it denotes.  An arithmetic operation
  is the exact operation followed by the rounding \<open>fround\<close> of the floating-point unit;
  \<open>fexp\<close> is the C library's \<open>expf\<close>.  Comparisons and copies of floats are exact.
  Infinities and NaN are outside the model.  \<open>binary32\<close> is the set of finite values of
  the IEEE 754 single format: 24-bit significand, exponents from -149 to 104.
\<close>

record fpu =
  fround :: "real \<Rightarrow> real"
  fexp :: "real \<Rightarrow> real"

definition binary32 :: "real \<Rightarrow> bool" where
  "binary32 x \<longleftrightarrow>
     (\<exists>m e :: int. \<bar>m\<bar> < 2 ^ 24 \<and> - 149 \<le> e \<and> e \<le> 104 \<and> x = of_int m * 2 powr of_int e)"

definition exact_on_binary32 :: "fpu \<Rightarrow> bool" where
  "exact_on_binary32 fp \<longleftrightarrow> (\<forall>x. binary32 x \<longrightarrow> fround fp x = x)"

text \<open>
  A unit that rounds to nearest as IEEE 754 does on finite values: rounding is monotone,
  leaves \<open>binary32\<close> values as they are, yields values that it leaves as they are, and
  is off by at most half a unit in the last place (relative error \<open>2\<^sup>-\<^sup>2\<^sup>4\<close>, or
  \<open>2\<^sup>-\<^sup>1\<^sup>5\<^sup>0\<close> absolute where the result is subnormal).  Of \<open>expf\<close> it is required that
  \<open>expf(0)\<close> is 1 and that for arguments up to 0 the result is a float between 0 and 1.
\<close>

definition binary32_unit :: "fpu \<Rightarrow> bool" where
  "binary32_unit fp \<longleftrightarrow>
     (\<forall>x y. x \<le> y \<longrightarrow> fround fp x \<le> fround fp y) \<and>
     exact_on_binary32 fp \<and>
     (\<forall>x. fround fp (fround fp x) = fround fp x) \<and>
     (\<forall>x. \<bar>fround fp x - x\<bar> \<le> \<bar>x\<bar> / 2 ^ 24 + 1 / 2 ^ 150) \<and>
     fexp fp 0 = 1 \<and>
     (\<forall>x\<le>0. fround fp (fexp fp x) = fexp fp x \<and> 0 \<le> fexp fp x \<and> fexp fp x \<le> 1)"

section \<open>Fixed-point conversion\<close>

definition Q8_8_SCALE :: real where "Q8_8_SCALE = 256"

definition CNN_FixedToFloat :: "fpu \<Rightarrow> i16 \<Rightarrow> real" where
  "CNN_FixedToFloat fp v = fround fp (fround fp (of_int (sint v)) / Q8_8_SCALE)"

text \<open>The cast \<open>(int16_t)scaled\<close> discards the fraction (rounds towards zero).\<close>

definition float_to_int16 :: "real \<Rightarrow> i16" where
  "float_to_int16 x = word_of_int (if 0 \<le> x then \<lfloor>x\<rfloor> else \<lceil>x\<rceil>)"

definition CNN_FloatToFixed :: "fpu \<Rightarrow> real \<Rightarrow> i16" where
  "CNN_FloatToFixed fp v =
    (let scaled = fround fp (v * Q8_8_SCALE);
         scaled = (if scaled > 32767 then 32767 else scaled);
         scaled = (if scaled < - 32768 then - 32768 else scaled)
     in float_to_int16 scaled)"

section \<open>The driver (cnn\_accelerator.c)\<close>

text \<open>
  A pointer argument is an \<open>option\<close>: \<open>None\<close> is \<open>NULL\<close>, \<open>Some x\<close> points to the
  object \<open>x\<close>.  A function returns its C return value (if any), the objects its pointer
  arguments point to afterwards, and the log.
\<close>

definition CNN_Reset :: "CnnAccelerator_t option \<Rightarrow> world \<Rightarrow> CnnAccelerator_t option \<times> world" where
  "CNN_Reset cnn w =
    (case cnn of
       None \<Rightarrow> (None, w)
     | Some h \<Rightarrow>
        (let w = CNN_WRITE_REG h CNN_REG_CONTROL CNN_CTRL_RESET w;
             w = usleep 10 w;
             w = CNN_WRITE_REG h CNN_REG_CONTROL 0 w;
             w = CNN_WRITE_REG h CNN_REG_IRQ_STATUS 0xFFFFFFFF w
         in (Some (h\<lparr>inference_done := 0\<rparr>), w)))"

definition CNN_Init ::
  "device \<Rightarrow> CnnAccelerator_t option \<Rightarrow> world \<Rightarrow> int \<times> CnnAccelerator_t option \<times> world" where
  "CNN_Init dev cnn w =
    (case cnn of
       None \<Rightarrow> (XST_FAILURE, None, w)
     | Some h \<Rightarrow>
        (let h = h\<lparr>base_addr := CNN_ACCEL_BASE_ADDR,
                   dma_video_addr := DMA_VIDEO_BASE_ADDR,
                   dma_weights_addr := DMA_WEIGHTS_BASE_ADDR\<rparr>;
             h = h\<lparr>weight_mem_addr := 0x10000000,
                   bias_mem_addr := 0x18000000,
                   input_frame_addr := 0x20000000,
                   output_result_addr := 0x28000000\<rparr>;
             h = h\<lparr>config := \<lparr>input_width = 128, input_height = 128, input_channels = 3,
                               num_classes = 10, layer_enable = 0xFF,
                               activation = CNN_ACT_RELU, pool_type = CNN_POOL_MAX\<rparr>\<rparr>;
             h = h\<lparr>inference_done := 0\<rparr>;
             (cnn, w) = CNN_Reset (Some h) w;
             (status, w) = CNN_READ_REG dev h CNN_REG_STATUS w
         in if status = 0xFFFFFFFF then (XST_FAILURE, cnn, w)
            else (XST_SUCCESS, cnn, w)))"

definition CNN_Configure ::
  "CnnAccelerator_t option \<Rightarrow> CnnConfig_t option \<Rightarrow> world \<Rightarrow> int \<times> CnnAccelerator_t option \<times> world" where
  "CNN_Configure cnn cfg w =
    (case (cnn, cfg) of
       (Some h, Some c) \<Rightarrow>
         if input_width c = 0 \<or> input_height c = 0 \<or>
            input_width c > 224 \<or> input_height c > 224
         then (XST_FAILURE, cnn, w)
         else
          (let h = h\<lparr>config := c\<rparr>;
               cfg_reg = (0 :: u32);
               cfg_reg = cfg_reg OR (ucast (layer_enable c) AND CNN_CFG_LAYER_EN_MASK);
               cfg_reg = cfg_reg OR
                  (push_bit CNN_CFG_ACT_SHIFT (activation_code (activation c)) AND CNN_CFG_ACT_MASK);
               cfg_reg = (if pool_type c = CNN_POOL_AVG then cfg_reg OR CNN_CFG_POOL_TYPE
                          else cfg_reg);
               w = CNN_WRITE_REG h CNN_REG_CONFIG cfg_reg w;
               dim_reg = push_bit 16 (ucast (input_height c)) OR ucast (input_width c);
               w = CNN_WRITE_REG h CNN_REG_INPUT_DIM dim_reg w;
               w = CNN_WRITE_REG h CNN_REG_WEIGHT_ADDR (weight_mem_addr h) w;
               w = CNN_WRITE_REG h CNN_REG_BIAS_ADDR (bias_mem_addr h) w;
               w = CNN_WRITE_REG h CNN_REG_INPUT_ADDR (input_frame_addr h) w;
               w = CNN_WRITE_REG h CNN_REG_OUTPUT_ADDR (output_result_addr h) w
           in (XST_SUCCESS, Some h, w))
     | _ \<Rightarrow> (XST_FAILURE, cnn, w))"

definition CNN_LoadWeights ::
  "CnnAccelerator_t option \<Rightarrow> i16 list option \<Rightarrow> u32 \<Rightarrow> world \<Rightarrow> int \<times> CnnAccelerator_t option \<times> world" where
  "CNN_LoadWeights cnn weights nbytes w =
    (case (cnn, weights) of
       (Some h, Some ws) \<Rightarrow>
         if nbytes = 0 then (XST_FAILURE, cnn, w)
         else
          (let w = emit (Memcpy (weight_mem_addr h) ws nbytes) w;
               w = emit (DCacheFlushRange (weight_mem_addr h) nbytes) w;
               w = CNN_WRITE_REG h CNN_REG_WEIGHT_ADDR (weight_mem_addr h) w
           in (XST_SUCCESS, cnn, w))
     | _ \<Rightarrow> (XST_FAILURE, cnn, w))"

definition CNN_LoadBiases ::
  "CnnAccelerator_t option \<Rightarrow> i16 list option \<Rightarrow> u32 \<Rightarrow> world \<Rightarrow> int \<times> CnnAccelerator_t option \<times> world" where
  "CNN_LoadBiases cnn biases nbytes w =
    (case (cnn, biases) of
       (Some h, Some bs) \<Rightarrow>
         if nbytes = 0 then (XST_FAILURE, cnn, w)
         else
          (let w = emit (Memcpy (bias_mem_addr h) bs nbytes) w;
               w = emit (DCacheFlushRange (bias_mem_addr h) nbytes) w;
               w = CNN_WRITE_REG h CNN_REG_BIAS_ADDR (bias_mem_addr h) w
           in (XST_SUCCESS, cnn, w))
     | _ \<Rightarrow> (XST_FAILURE, cnn, w))"

definition CNN_StartInference ::
  "device \<Rightarrow> CnnAccelerator_t option \<Rightarrow> u32 \<Rightarrow> world \<Rightarrow> int \<times> CnnAccelerator_t option \<times> world" where
  "CNN_StartInference dev cnn frame_addr w =
    (case cnn of
       None \<Rightarrow> (XST_FAILURE, None, w)
     | Some h \<Rightarrow>
        (let (status, w) = CNN_READ_REG dev h CNN_REG_STATUS w
         in if status AND CNN_STAT_BUSY \<noteq> 0 then (XST_FAILURE, cnn, w)
            else
             (let w = CNN_WRITE_REG h CNN_REG_INPUT_ADDR frame_addr w;
                  frame_size = ucast (input_width (config h)) * ucast (input_height (config h)) *
                               ucast (input_channels (config h)) * (2 :: u32);
                  w = emit (DCacheFlushRange frame_addr frame_size) w;
                  h = h\<lparr>inference_done := 0\<rparr>;
                  w = CNN_WRITE_REG h CNN_REG_CONTROL CNN_CTRL_START w
              in (XST_SUCCESS, Some h, w))))"

text \<open>
  One pass through the body of the \<open>while (1)\<close> loop of \<open>CNN_WaitForCompletion\<close>, up to
  the timeout check: \<open>Some\<close> is a \<open>return\<close> from inside the body, \<open>None\<close> falls through.
\<close>

definition wait_poll ::
  "device \<Rightarrow> CnnAccelerator_t \<Rightarrow> world \<Rightarrow> (int \<times> CnnAccelerator_t) option \<times> world" where
  "wait_poll dev h w =
    (let (status, w) = CNN_READ_REG dev h CNN_REG_STATUS w
     in if status AND CNN_STAT_DONE \<noteq> 0 then (Some (XST_SUCCESS, h\<lparr>inference_done := 1\<rparr>), w)
        else if \<not> (status AND CNN_STAT_BUSY \<noteq> 0) then
          (if status AND CNN_STAT_ERROR_MASK \<noteq> 0 then (Some (XST_FAILURE, h), w)
           else
            (let (status2, w) = CNN_READ_REG dev h CNN_REG_STATUS w
             in if status2 AND CNN_STAT_DONE \<noteq> 0
                then (Some (XST_SUCCESS, h\<lparr>inference_done := 1\<rparr>), w)
                else (None, w)))
        else (None, w))"

definition poll_interval :: u32 where "poll_interval = 1"

text \<open>The loop may run forever: not returning is the value \<open>None\<close>.\<close>

partial_function (option) wait_loop ::
  "device \<Rightarrow> u32 \<Rightarrow> u32 \<Rightarrow> CnnAccelerator_t \<Rightarrow> world \<Rightarrow> (int \<times> CnnAccelerator_t \<times> world) option" where
  "wait_loop dev timeout_ms elapsed h w =
    (case wait_poll dev h w of
       (Some (r, h'), w') \<Rightarrow> Some (r, h', w')
     | (None, w') \<Rightarrow>
         if timeout_ms > 0 \<and> elapsed \<ge> timeout_ms then Some (XST_FAILURE, h, w')
         else wait_loop dev timeout_ms (elapsed + poll_interval) h
                (usleep (unat (poll_interval * 1000)) w'))"

definition CNN_WaitForCompletion ::
  "device \<Rightarrow> CnnAccelerator_t option \<Rightarrow> u32 \<Rightarrow> world \<Rightarrow> (int \<times> CnnAccelerator_t option \<times> world) option" where
  "CNN_WaitForCompletion dev cnn timeout_ms w =
    (case cnn of
       None \<Rightarrow> Some (XST_FAILURE, None, w)
     | Some h \<Rightarrow>
        (case wait_loop dev timeout_ms 0 h w of
           None \<Rightarrow> None
         | Some (r, h', w') \<Rightarrow> Some (r, Some h', w')))"

definition CNN_IsComplete ::
  "device \<Rightarrow> CnnAccelerator_t option \<Rightarrow> world \<Rightarrow> int \<times> CnnAccelerator_t option \<times> world" where
  "CNN_IsComplete dev cnn w =
    (case cnn of
       None \<Rightarrow> (0, None, w)
     | Some h \<Rightarrow>
        if inference_done h \<noteq> 0 then (1, cnn, w)
        else
         (let (status, w) = CNN_READ_REG dev h CNN_REG_STATUS w
          in if status AND CNN_STAT_DONE \<noteq> 0 then (1, Some (h\<lparr>inference_done := 1\<rparr>), w)
             else (0, cnn, w)))"

definition CNN_GetStatus ::
  "device \<Rightarrow> CnnAccelerator_t option \<Rightarrow> CnnStatus_t option \<Rightarrow> world \<Rightarrow> CnnStatus_t option \<times> world" where
  "CNN_GetStatus dev cnn status w =
    (case (cnn, status) of
       (Some h, Some st) \<Rightarrow>
         (let (reg_status, w) = CNN_READ_REG dev h CNN_REG_STATUS w;
              st = st\<lparr>busy := (if reg_status AND CNN_STAT_BUSY \<noteq> 0 then 1 else 0)\<rparr>;
              st = st\<lparr>done_st := (if reg_status AND CNN_STAT_DONE \<noteq> 0 then 1 else 0)\<rparr>;
              st = st\<lparr>error_code := ucast (drop_bit 4 (reg_status AND CNN_STAT_ERROR_MASK))\<rparr>;
              (c, w) = CNN_READ_REG dev h CNN_REG_PERF_CYCLES w;
              st = st\<lparr>cycles := c\<rparr>;
              (ops, w) = CNN_READ_REG dev h CNN_REG_PERF_OPS w;
              st = st\<lparr>operations := ops\<rparr>
          in (Some st, w))
     | _ \<Rightarrow> (status, w))"

definition CNN_Stop :: "CnnAccelerator_t option \<Rightarrow> world \<Rightarrow> CnnAccelerator_t option \<times> world" where
  "CNN_Stop cnn w =
    (case cnn of
       None \<Rightarrow> (None, w)
     | Some h \<Rightarrow>
        (let w = CNN_WRITE_REG h CNN_REG_CONTROL CNN_CTRL_STOP w
         in (Some (h\<lparr>inference_done := 0\<rparr>), w)))"

definition CNN_EnableInterrupt :: "CnnAccelerator_t option \<Rightarrow> int \<Rightarrow> world \<Rightarrow> world" where
  "CNN_EnableInterrupt cnn enable w =
    (case cnn of
       None \<Rightarrow> w
     | Some h \<Rightarrow>
        if enable \<noteq> 0 then CNN_WRITE_REG h CNN_REG_IRQ_ENABLE (CNN_IRQ_DONE OR CNN_IRQ_ERROR) w
        else CNN_WRITE_REG h CNN_REG_IRQ_ENABLE 0 w)"

definition CNN_ClearInterrupt :: "device \<Rightarrow> CnnAccelerator_t option \<Rightarrow> world \<Rightarrow> world" where
  "CNN_ClearInterrupt dev cnn w =
    (case cnn of
       None \<Rightarrow> w
     | Some h \<Rightarrow>
        (let (irq_status, w) = CNN_READ_REG dev h CNN_REG_IRQ_STATUS w
         in CNN_WRITE_REG h CNN_REG_IRQ_STATUS irq_status w))"

definition CNN_InterruptHandler ::
  "device \<Rightarrow> CnnAccelerator_t option \<Rightarrow> world \<Rightarrow> CnnAccelerator_t option \<times> world" where
  "CNN_InterruptHandler dev cnn w =
    (case cnn of
       None \<Rightarrow> (None, w)
     | Some h \<Rightarrow>
        (let (irq_status, w) = CNN_READ_REG dev h CNN_REG_IRQ_STATUS w;
             h = (if irq_status AND CNN_IRQ_DONE \<noteq> 0 then h\<lparr>inference_done := 1\<rparr> else h);
             w = CNN_WRITE_REG h CNN_REG_IRQ_STATUS irq_status w
         in (Some h, w)))"

section \<open>Post-processing: softmax and top-K\<close>

text \<open>
  An array access outside the array's extent is undefined behaviour in C; in the model it
  ends the computation with a fault.
\<close>

datatype fault = OutOfBounds

text \<open>
  \<open>CNN_Softmax\<close>: the input is a pointer into device memory (every read of it answers),
  the output is an array with an extent.  The three \<open>for\<close> loops are three functions;
  \<open>sz\<close> is the parameter \<open>size\<close>, \<open>sum_acc\<close> the local \<open>sum\<close>.
\<close>

function softmax_max :: "fpu \<Rightarrow> (nat \<Rightarrow> i16) \<Rightarrow> int \<Rightarrow> nat \<Rightarrow> real \<Rightarrow> real" where
  "softmax_max fp input sz i max_val =
    (if int i < sz then
       (let val = CNN_FixedToFloat fp (input i)
        in softmax_max fp input sz (Suc i) (if val > max_val then val else max_val))
     else max_val)"
  by pat_completeness auto
termination
  by (relation "measure (\<lambda>(fp, input, sz, i, max_val). nat (sz - int i))") auto

function softmax_exp ::
  "fpu \<Rightarrow> (nat \<Rightarrow> i16) \<Rightarrow> int \<Rightarrow> real \<Rightarrow> nat \<Rightarrow> real list \<times> real \<Rightarrow> fault + real list \<times> real" where
  "softmax_exp fp input sz max_val i (output, sum_acc) =
    (if int i < sz then
       (if length output \<le> i then Inl OutOfBounds
        else
         (let val = CNN_FixedToFloat fp (input i);
              e = fexp fp (fround fp (val - max_val))
          in softmax_exp fp input sz max_val (Suc i) (output[i := e], fround fp (sum_acc + e))))
     else Inr (output, sum_acc))"
  by pat_completeness auto
termination
  by (relation "measure (\<lambda>(fp, input, sz, max_val, i, acc). nat (sz - int i))") auto

function softmax_norm :: "fpu \<Rightarrow> int \<Rightarrow> real \<Rightarrow> nat \<Rightarrow> real list \<Rightarrow> fault + real list" where
  "softmax_norm fp sz sum_acc i output =
    (if int i < sz then
       (if length output \<le> i then Inl OutOfBounds
        else softmax_norm fp sz sum_acc (Suc i) (output[i := fround fp (output ! i / sum_acc)]))
     else Inr output)"
  by pat_completeness auto
termination
  by (relation "measure (\<lambda>(fp, sz, sum_acc, i, output). nat (sz - int i))") auto

definition CNN_Softmax :: "fpu \<Rightarrow> (nat \<Rightarrow> i16) \<Rightarrow> real list \<Rightarrow> int \<Rightarrow> fault + real list" where
  "CNN_Softmax fp input output sz =
    (let max_val = CNN_FixedToFloat fp (input 0);
         sum_acc = 0;
         max_val = softmax_max fp input sz 1 max_val
     in case softmax_exp fp input sz max_val 0 (output, sum_acc) of
          Inl f \<Rightarrow> Inl f
        | Inr (output, sum_acc) \<Rightarrow> softmax_norm fp sz sum_acc 0 output)"

text \<open>
  \<open>CNN_GetTopK\<close>: \<open>topk_scan\<close> is the inner loop over \<open>i\<close>, \<open>topk_rounds\<close> the outer loop
  over \<open>k\<close>.  \<open>selected\<close> is the local array of \<open>CNN_MAX_CLASSES\<close> bytes.  In
  \<open>!selected[i] && probs[i] > max_prob\<close> the array \<open>probs\<close> is read only where
  \<open>selected[i]\<close> is zero.
\<close>

function topk_scan ::
  "real list \<Rightarrow> int \<Rightarrow> u8 list \<Rightarrow> nat \<Rightarrow> real \<times> int \<Rightarrow> fault + real \<times> int" where
  "topk_scan probs n_classes selected i (max_prob, max_idx) =
    (if int i < n_classes then
       (if length selected \<le> i then Inl OutOfBounds
        else if selected ! i \<noteq> 0 then
          topk_scan probs n_classes selected (Suc i) (max_prob, max_idx)
        else if length probs \<le> i then Inl OutOfBounds
        else if probs ! i > max_prob then
          topk_scan probs n_classes selected (Suc i) (probs ! i, int i)
        else topk_scan probs n_classes selected (Suc i) (max_prob, max_idx))
     else Inr (max_prob, max_idx))"
  by pat_completeness auto
termination
  by (relation "measure (\<lambda>(probs, n_classes, selected, i, acc). nat (n_classes - int i))") auto

function topk_rounds ::
  "real list \<Rightarrow> int \<Rightarrow> int \<Rightarrow> nat \<Rightarrow> u8 list \<times> ClassificationResult_t list
     \<Rightarrow> fault + ClassificationResult_t list" where
  "topk_rounds probs n_classes top_k k (selected, results) =
    (if int k < top_k then
       (case topk_scan probs n_classes selected 0 (- 1, - 1) of
          Inl f \<Rightarrow> Inl f
        | Inr (max_prob, max_idx) \<Rightarrow>
            if max_idx \<ge> 0 then
              (if length results \<le> k \<or> length selected \<le> nat max_idx then Inl OutOfBounds
               else topk_rounds probs n_classes top_k (Suc k)
                      (selected[nat max_idx := 1],
                       results[k := \<lparr>class_id = max_idx, confidence = max_prob\<rparr>]))
            else topk_rounds probs n_classes top_k (Suc k) (selected, results))
     else Inr results)"
  by pat_completeness auto
termination
  by (relation "measure (\<lambda>(probs, n_classes, top_k, k, st). nat (top_k - int k))") auto

definition CNN_GetTopK ::
  "real list \<Rightarrow> int \<Rightarrow> int \<Rightarrow> ClassificationResult_t list \<Rightarrow> fault + ClassificationResult_t list" where
  "CNN_GetTopK probs n_classes top_k results =
     topk_rounds probs n_classes top_k 0 (replicate CNN_MAX_CLASSES 0, results)"

text \<open>
  \<open>CNN_GetResult\<close>.  The local array \<open>probs\<close> is not initialised in C; every element that
  is read has been written by \<open>CNN_Softmax\<close> before, so its initial content is immaterial.
  The handle is not modified.
\<close>

definition CNN_GetResult ::
  "device \<Rightarrow> fpu \<Rightarrow> CnnAccelerator_t option \<Rightarrow> InferenceResult_t option \<Rightarrow> world
     \<Rightarrow> fault + int \<times> InferenceResult_t option \<times> world" where
  "CNN_GetResult dev fp cnn result w =
    (case (cnn, result) of
       (Some h, Some res) \<Rightarrow>
         if \<not> (inference_done h \<noteq> 0) then Inr (XST_FAILURE, result, w)
         else
          (let nc = num_classes (config h);
               output_size = ucast nc * (2 :: u32);
               w = emit (DCacheInvalidateRange (output_result_addr h) output_size) w;
               raw_output = ddr_i16 dev (output_result_addr h);
               probs = replicate CNN_MAX_CLASSES (0 :: real)
           in case CNN_Softmax fp raw_output probs (uint nc) of
                Inl f \<Rightarrow> Inl f
              | Inr probs \<Rightarrow>
                 (let res = res\<lparr>num_results := (if uint nc < 5 then uint nc else 5)\<rparr>
                  in case CNN_GetTopK probs (uint nc) (num_results res) (classifications res) of
                       Inl f \<Rightarrow> Inl f
                     | Inr cls \<Rightarrow> Inr (XST_SUCCESS, Some (res\<lparr>classifications := cls\<rparr>), w)))
     | _ \<Rightarrow> Inr (XST_FAILURE, result, w))"

section \<open>Calls of the driver interface\<close>

text \<open>
  Every public function of the driver that takes the handle, with its other arguments.
  \<open>exec\<close> runs one call and gives the handle and the log afterwards; it is \<open>None\<close> when
  the call does not return (the wait loop runs forever) or faults.
\<close>

datatype driver_call =
    Init
  | Configure "CnnConfig_t option"
  | Reset
  | LoadWeights "i16 list option" u32
  | LoadBiases "i16 list option" u32
  | StartInference u32
  | WaitForCompletion u32
  | IsComplete
  | GetResult "InferenceResult_t option"
  | GetStatus "CnnStatus_t option"
  | Stop
  | EnableInterrupt int
  | ClearInterrupt
  | InterruptHandler

fun exec ::
  "device \<Rightarrow> fpu \<Rightarrow> driver_call \<Rightarrow> CnnAccelerator_t option \<times> world
     \<Rightarrow> (CnnAccelerator_t option \<times> world) option" where
  "exec dev fp Init (cnn, w) = Some (snd (CNN_Init dev cnn w))"
| "exec dev fp (Configure cfg) (cnn, w) = Some (snd (CNN_Configure cnn cfg w))"
| "exec dev fp Reset (cnn, w) = Some (CNN_Reset cnn w)"
| "exec dev fp (LoadWeights ws n) (cnn, w) = Some (snd (CNN_LoadWeights cnn ws n w))"
| "exec dev fp (LoadBiases bs n) (cnn, w) = Some (snd (CNN_LoadBiases cnn bs n w))"
| "exec dev fp (StartInference a) (cnn, w) = Some (snd (CNN_StartInference dev cnn a w))"
| "exec dev fp (WaitForCompletion t) (cnn, w) =
     map_option snd (CNN_WaitForCompletion dev cnn t w)"
| "exec dev fp IsComplete (cnn, w) = Some (snd (CNN_IsComplete dev cnn w))"
| "exec dev fp (GetResult res) (cnn, w) =
     (case CNN_GetResult dev fp cnn res w of
        Inl f \<Rightarrow> None
      | Inr (r, res', w') \<Rightarrow> Some (cnn, w'))"
| "exec dev fp (GetStatus st) (cnn, w) = Some (cnn, snd (CNN_GetStatus dev cnn st w))"
| "exec dev fp Stop (cnn, w) = Some (CNN_Stop cnn w)"
| "exec dev fp (EnableInterrupt en) (cnn, w) = Some (cnn, CNN_EnableInterrupt cnn en w)"
| "exec dev fp ClearInterrupt (cnn, w) = Some (cnn, CNN_ClearInterrupt dev cnn w)"
| "exec dev fp InterruptHandler (cnn, w) = Some (CNN_InterruptHandler dev cnn w)"

section \<open>Reference for softmax\<close>

text \<open>
  The softmax as the specification words it, every arithmetic step rounded by the unit:
  decode each logit; take the maximum of the decoded values (\<open>ref_max d n\<close> is the
  maximum of \<open>d 0\<close>, \<open>\<dots>\<close>, \<open>d (n - 1)\<close>); subtract it from every element and exponentiate;
  sum the exponentials in index order; divide every exponential by the sum.
\<close>

primrec ref_max :: "(nat \<Rightarrow> real) \<Rightarrow> nat \<Rightarrow> real" where
  "ref_max d 0 = d 0"
| "ref_max d (Suc n) = max (ref_max d n) (d n)"

primrec float_sum :: "fpu \<Rightarrow> (nat \<Rightarrow> real) \<Rightarrow> nat \<Rightarrow> real" where
  "float_sum fp e 0 = 0"
| "float_sum fp e (Suc n) = fround fp (float_sum fp e n + e n)"

definition decoded :: "fpu \<Rightarrow> (nat \<Rightarrow> i16) \<Rightarrow> nat \<Rightarrow> real" where
  "decoded fp input i = CNN_FixedToFloat fp (input i)"

definition ref_exp :: "fpu \<Rightarrow> (nat \<Rightarrow> i16) \<Rightarrow> nat \<Rightarrow> nat \<Rightarrow> real" where
  "ref_exp fp input n i =
     fexp fp (fround fp (decoded fp input i - ref_max (decoded fp input) n))"

definition spec_Softmax :: "fpu \<Rightarrow> (nat \<Rightarrow> i16) \<Rightarrow> nat \<Rightarrow> real list" where
  "spec_Softmax fp input n =
     map (\<lambda>i. fround fp (ref_exp fp input n i / float_sum fp (ref_exp fp input n) n)) [0..<n]"

section \<open>Reference algorithm for top-K\<close>

text \<open>
  The repeated selection as the specification words it: in each round the candidates are
  the indices not yet selected; the pick is the first candidate whose probability is not
  below any candidate's; it is marked selected and \<open>{index, probability}\<close> is appended.
  When no candidate is left, nothing more is produced.
\<close>

definition candidates :: "real list \<Rightarrow> nat list \<Rightarrow> nat list" where
  "candidates probs sel = filter (\<lambda>i. i \<notin> set sel) [0..<length probs]"

definition pick :: "real list \<Rightarrow> nat list \<Rightarrow> nat" where
  "pick probs cand = hd (filter (\<lambda>i. \<forall>c \<in> set cand. probs ! c \<le> probs ! i) cand)"

fun spec_rounds :: "real list \<Rightarrow> nat \<Rightarrow> nat list \<Rightarrow> ClassificationResult_t list" where
  "spec_rounds probs 0 sel = []"
| "spec_rounds probs (Suc k) sel =
    (let cand = candidates probs sel
     in if cand = [] then []
        else (let j = pick probs cand
              in \<lparr>class_id = int j, confidence = probs ! j\<rparr> # spec_rounds probs k (j # sel)))"

definition spec_TopK :: "real list \<Rightarrow> int \<Rightarrow> ClassificationResult_t list" where
  "spec_TopK probs k = spec_rounds probs (nat k) []"

section \<open>Invariants of the top-K loops\<close>

text \<open>
  After the inner loop has examined the indices below \<open>i\<close>: either nothing was taken
  because every index so far is marked, or \<open>max_idx\<close> is an unmarked index below \<open>i\<close>
  holding \<open>max_prob\<close>, no unmarked index below \<open>i\<close> holds more, and every unmarked index
  before \<open>max_idx\<close> holds less.
\<close>

definition scan_inv :: "real list \<Rightarrow> u8 list \<Rightarrow> nat \<Rightarrow> real \<times> int \<Rightarrow> bool" where
  "scan_inv probs selected i acc =
    (case acc of (mp, mi) \<Rightarrow>
       (mi = - 1 \<and> mp = - 1 \<and> (\<forall>c<i. selected ! c \<noteq> 0)) \<or>
       (0 \<le> mi \<and> nat mi < i \<and> selected ! nat mi = 0 \<and> mp = probs ! nat mi \<and>
        (\<forall>c<i. selected ! c = 0 \<longrightarrow> probs ! c \<le> mp) \<and>
        (\<forall>c<nat mi. selected ! c = 0 \<longrightarrow> probs ! c < mp)))"

text \<open>The byte array \<open>selected\<close> marks, below \<open>n\<close>, exactly the indices listed in \<open>sel\<close>.\<close>

definition marks :: "u8 list \<Rightarrow> nat list \<Rightarrow> nat \<Rightarrow> bool" where
  "marks selected sel n \<longleftrightarrow> (\<forall>i<n. selected ! i \<noteq> 0 \<longleftrightarrow> i \<in> set sel)"

section \<open>Status sources and example inputs\<close>

text \<open>A status source that never reports done and never clears busy.\<close>

definition always_busy :: "device \<Rightarrow> CnnAccelerator_t \<Rightarrow> bool" where
  "always_busy dev h \<longleftrightarrow>
     (\<forall>n. reg_in dev n (base_addr h + CNN_REG_STATUS) AND CNN_STAT_DONE = 0 \<and>
          reg_in dev n (base_addr h + CNN_REG_STATUS) AND CNN_STAT_BUSY \<noteq> 0)"

text \<open>
  Concrete inputs for evaluation: the configuration and handle that \<open>CNN_Init\<close> sets up,
  an empty log, a device whose successive register reads answer the listed values (and
  \<open>d\<close> afterwards), and a floating-point unit without rounding error.
\<close>

definition default_config :: CnnConfig_t where
  "default_config = \<lparr>input_width = 128, input_height = 128, input_channels = 3,
      num_classes = 10, layer_enable = 0xFF, activation = CNN_ACT_RELU,
      pool_type = CNN_POOL_MAX\<rparr>"

definition default_handle :: CnnAccelerator_t where
  "default_handle = \<lparr>base_addr = CNN_ACCEL_BASE_ADDR, dma_video_addr = DMA_VIDEO_BASE_ADDR,
      dma_weights_addr = DMA_WEIGHTS_BASE_ADDR, config = default_config,
      weight_mem_addr = 0x10000000, bias_mem_addr = 0x18000000,
      input_frame_addr = 0x20000000, output_result_addr = 0x28000000, inference_done = 0\<rparr>"

definition blank_world :: world where
  "blank_world = \<lparr>reads = 0, events = []\<rparr>"

definition dev_seq :: "u32 list \<Rightarrow> u32 \<Rightarrow> device" where
  "dev_seq xs d = \<lparr>reg_in = (\<lambda>n a. if n < length xs then xs ! n else d), ddr_i16 = (\<lambda>a i. 0)\<rparr>"

definition fpu_exact :: fpu where
  "fpu_exact = \<lparr>fround = (\<lambda>x. x), fexp = exp\<rparr>"

text \<open>
  Logit arrays: all zero; and a zero followed by the raw value -4259 (decoded
  \<open>-4259/256\<close>) at every other index.
\<close>

definition logits_flat :: "nat \<Rightarrow> i16" where
  "logits_flat = (\<lambda>i. 0)"

definition logits_170 :: "nat \<Rightarrow> i16" where
  "logits_170 = (\<lambda>i. if i = 0 then 0 else - 4259)"

text \<open>
  A unit that behaves as binary32 wherever a sum is close to 1: a value in \<open>[1, 2)\<close>,
  where binary32 values are \<open>2\<^sup>-\<^sup>2\<^sup>3\<close> apart, is rounded to the nearest of them (ties to
  the even one, \<open>rne\<close>); other values are left exact.  Its \<open>expf\<close> returns, at
  \<open>-4259/256\<close>, the binary32 value nearest to the exponential, \<open>16757323 / 2\<^sup>4\<^sup>8\<close>.
\<close>

definition rne :: "real \<Rightarrow> int" where
  "rne y =
    (let f = \<lfloor>y\<rfloor>
     in if y - of_int f < 1 / 2 then f
        else if 1 / 2 < y - of_int f then f + 1
        else if even f then f else f + 1)"

definition fpu_binade1 :: fpu where
  "fpu_binade1 =
     \<lparr>fround = (\<lambda>x. if 1 \<le> x \<and> x < 2 then of_int (rne (x * 2 ^ 23)) / 2 ^ 23 else x),
      fexp = (\<lambda>x. if x = - 4259 / 256 then 16757323 / 2 ^ 48 else exp x)\<rparr>"

section \<open>Properties of the control path\<close>

lemmas hw_defs = CNN_WRITE_REG_def CNN_READ_REG_def Xil_Out32_def Xil_In32_def emit_def usleep_def

declare softmax_max.simps [simp del] softmax_exp.simps [simp del] softmax_norm.simps [simp del]
  topk_scan.simps [simp del] topk_rounds.simps [simp del]

subsection \<open>Start while busy\<close>

text \<open>
  Claim C3.  When the status register reads as busy, \<open>CNN_StartInference\<close> returns
  \<open>XST_FAILURE\<close>; the handle, and with it the completion flag, is as before; the only
  hardware access is the one read of the status register, so no register is written (in
  particular not the start bit of the control register).
\<close>

theorem StartInference_busy_rejected:
  assumes "reg_in dev (reads w) (base_addr h + CNN_REG_STATUS) AND CNN_STAT_BUSY \<noteq> 0"
  shows "\<exists>w'. CNN_StartInference dev (Some h) frame_addr w = (XST_FAILURE, Some h, w')
            \<and> writes_of w' = writes_of w
            \<and> events w' = events w @ [In32 (base_addr h + CNN_REG_STATUS)
                  (reg_in dev (reads w) (base_addr h + CNN_REG_STATUS))]
            \<and> XST_FAILURE \<noteq> XST_SUCCESS"
  using assms
  by (simp add: CNN_StartInference_def hw_defs Let_def writes_of_def XST_FAILURE_def XST_SUCCESS_def)

theorem StartInference_busy_rejected_witness:
  "\<exists>w'. CNN_StartInference (dev_seq [] 1) (Some (default_handle\<lparr>inference_done := 1\<rparr>))
            0x20000000 blank_world
          = (XST_FAILURE, Some (default_handle\<lparr>inference_done := 1\<rparr>), w')
        \<and> writes_of w' = [] \<and> events w' = [In32 0x80000004 1]"
  using StartInference_busy_rejected
          [of "dev_seq [] 1" blank_world "default_handle\<lparr>inference_done := 1\<rparr>" "0x20000000"]
  by (auto simp: dev_seq_def blank_world_def default_handle_def CNN_STAT_BUSY_def
      CNN_REG_STATUS_def CNN_ACCEL_BASE_ADDR_def writes_of_def)

subsection \<open>Validation of the dimensions\<close>

text \<open>
  Claim C6.  A configuration whose width or height is 0 or above 224 is rejected with
  \<open>XST_FAILURE\<close>, and the handle and the log are returned as they were: nothing is
  persisted and no register is written.  A 128 by 128 configuration is accepted and
  persisted.
\<close>

theorem Configure_validates_dimensions:
  "(input_width c = 0 \<or> input_height c = 0 \<or> input_width c > 224 \<or> input_height c > 224
      \<longrightarrow> CNN_Configure (Some h) (Some c) w = (XST_FAILURE, Some h, w)
          \<and> XST_FAILURE \<noteq> XST_SUCCESS)
   \<and> (input_width c = 128 \<and> input_height c = 128
      \<longrightarrow> (\<exists>w'. CNN_Configure (Some h) (Some c) w = (XST_SUCCESS, Some (h\<lparr>config := c\<rparr>), w')))"
  by (simp add: CNN_Configure_def Let_def XST_FAILURE_def XST_SUCCESS_def)

theorem Configure_validates_dimensions_witness:
  "CNN_Configure (Some default_handle) (Some (default_config\<lparr>input_width := 0\<rparr>)) blank_world
     = (XST_FAILURE, Some default_handle, blank_world)
   \<and> CNN_Configure (Some default_handle) (Some (default_config\<lparr>input_height := 225\<rparr>)) blank_world
     = (XST_FAILURE, Some default_handle, blank_world)
   \<and> (\<exists>w'. CNN_Configure (Some default_handle) (Some (default_config\<lparr>input_channels := 1\<rparr>))
             blank_world
           = (XST_SUCCESS,
              Some (default_handle\<lparr>config := default_config\<lparr>input_channels := 1\<rparr>\<rparr>), w'))"
  using Configure_validates_dimensions
          [of "default_config\<lparr>input_width := 0\<rparr>" default_handle blank_world]
        Configure_validates_dimensions
          [of "default_config\<lparr>input_height := 225\<rparr>" default_handle blank_world]
        Configure_validates_dimensions
          [of "default_config\<lparr>input_channels := 1\<rparr>" default_handle blank_world]
  by (simp add: default_config_def)

subsection \<open>Result access before completion\<close>

text \<open>
  Claim C7.  While the completion flag is not set, \<open>CNN_GetResult\<close> returns
  \<open>XST_FAILURE\<close> and gives back the result structure and the log untouched: no cache
  operation, no register access, no field of the result written.
\<close>

theorem GetResult_premature:
  "inference_done h = 0 \<Longrightarrow>
     CNN_GetResult dev fp (Some h) result w = Inr (XST_FAILURE, result, w)"
  by (simp add: CNN_GetResult_def split: option.splits)

theorem GetResult_premature_witness:
  "CNN_GetResult (dev_seq [] 2) fpu_exact (Some default_handle)
       (Some \<lparr>num_results = 7, classifications = []\<rparr>) blank_world
     = Inr (XST_FAILURE, Some \<lparr>num_results = 7, classifications = []\<rparr>, blank_world)"
  using GetResult_premature [of default_handle "dev_seq [] 2" fpu_exact
          "Some \<lparr>num_results = 7, classifications = []\<rparr>" blank_world]
  by (simp add: default_handle_def)

subsection \<open>Polled wait against a device that stays busy\<close>

lemma wait_poll_busy:
  assumes "reg_in dev (reads w) (base_addr h + CNN_REG_STATUS) AND CNN_STAT_DONE = 0"
      and "reg_in dev (reads w) (base_addr h + CNN_REG_STATUS) AND CNN_STAT_BUSY \<noteq> 0"
  shows "wait_poll dev h w =
      (None, w\<lparr>reads := Suc (reads w),
               events := events w @ [In32 (base_addr h + CNN_REG_STATUS)
                 (reg_in dev (reads w) (base_addr h + CNN_REG_STATUS))]\<rparr>)"
  using assms by (simp add: wait_poll_def hw_defs Let_def)

lemma wait_loop_timeout:
  assumes busy: "always_busy dev h" and t: "timeout_ms \<noteq> 0"
  shows "unat timeout_ms - unat elapsed = n \<Longrightarrow> elapsed \<le> timeout_ms \<Longrightarrow>
     \<exists>w'. wait_loop dev timeout_ms elapsed h w = Some (XST_FAILURE, h, w')
        \<and> slept_us w' = slept_us w + 1000 * n
        \<and> reads w' = reads w + n + 1
        \<and> writes_of w' = writes_of w"
proof (induction n arbitrary: elapsed w)
  case 0
  then have e: "elapsed = timeout_ms"
    by (simp add: word_le_nat_alt word_unat_eq_iff)
  have p: "0 < timeout_ms" using t by (simp add: word_greater_zero_iff)
  show ?case
    using busy p
    by (subst wait_loop.simps)
       (simp add: wait_poll_busy always_busy_def e slept_us_def writes_of_def)
next
  case (Suc n)
  then have lt: "elapsed < timeout_ms"
    by (simp add: word_less_nat_alt)
  then have ne: "\<not> timeout_ms \<le> elapsed" by simp
  have u: "unat (elapsed + 1) = unat elapsed + 1"
  proof -
    have "unat elapsed + unat (1 :: u32) < 2 ^ LENGTH(32)"
      using lt unsigned_less[of timeout_ms, where 'a = nat] by (simp add: word_less_nat_alt)
    then show ?thesis by (simp add: unat_add_lem[THEN iffD1])
  qed
  have le: "elapsed + 1 \<le> timeout_ms" using lt by (simp add: inc_le)
  have n: "unat timeout_ms - unat (elapsed + 1) = n" using Suc.prems(1) u by simp
  let ?w1 = "usleep (unat (poll_interval * 1000))
               (w\<lparr>reads := Suc (reads w),
                  events := events w @ [In32 (base_addr h + CNN_REG_STATUS)
                    (reg_in dev (reads w) (base_addr h + CNN_REG_STATUS))]\<rparr>)"
  from Suc.IH[OF n le, of ?w1] obtain w' where
    w': "wait_loop dev timeout_ms (elapsed + 1) h ?w1 = Some (XST_FAILURE, h, w')"
        "slept_us w' = slept_us ?w1 + 1000 * n" "reads w' = reads ?w1 + n + 1"
        "writes_of w' = writes_of ?w1" by blast
  have s1: "slept_us ?w1 = slept_us w + 1000"
    by (simp add: slept_us_def usleep_def emit_def poll_interval_def)
  have r1: "reads ?w1 = reads w + 1" by (simp add: usleep_def emit_def)
  have wr1: "writes_of ?w1 = writes_of w" by (simp add: writes_of_def usleep_def emit_def)
  have "wait_loop dev timeout_ms elapsed h w = wait_loop dev timeout_ms (elapsed + 1) h ?w1"
    using busy ne
    by (subst wait_loop.simps) (simp add: wait_poll_busy always_busy_def poll_interval_def)
  then show ?case using w' s1 r1 wr1 by simp
qed

lemma wait_loop_unbounded:
  assumes busy: "always_busy dev h"
  shows "wait_loop dev 0 elapsed h w = None"
proof (rule ccontr)
  assume "wait_loop dev 0 elapsed h w \<noteq> None"
  then obtain y where y: "wait_loop dev 0 elapsed h w = Some y" by auto
  have "always_busy dev h \<longrightarrow> (0 :: u32) \<noteq> 0"
  proof (rule wait_loop.raw_induct
                [where P = "\<lambda>dev' t e h' w' y'. always_busy dev' h' \<longrightarrow> t \<noteq> 0", OF _ y],
         intro impI notI)
    fix wl dev' t e h' w' y'
    assume IH: "\<And>dev t e h w y. wl dev t e h w = Some y \<Longrightarrow> always_busy dev h \<longrightarrow> t \<noteq> 0"
      and body: "(case wait_poll dev' h' w' of
                    (None, w'') \<Rightarrow>
                      if 0 < t \<and> t \<le> e then Some (XST_FAILURE, h', w'')
                      else wl dev' t (e + poll_interval) h'
                             (usleep (unat (poll_interval * 1000)) w'')
                  | (Some (r, h''), w'') \<Rightarrow> Some (r, h'', w'')) = Some y'"
      and b: "always_busy dev' h'" and t0: "t = 0"
    from b obtain w1 where "wait_poll dev' h' w' = (None, w1)"
      by (simp add: wait_poll_busy always_busy_def)
    with body t0
    have "wl dev' 0 (e + poll_interval) h' (usleep (unat (poll_interval * 1000)) w1) = Some y'"
      by simp
    from IH[OF this] b show False by simp
  qed
  then show False using busy by simp
qed

text \<open>
  Claim C2.  Against a status source that never reports done and never clears busy, a
  wait with a nonzero timeout of \<open>T\<close> milliseconds returns \<open>XST_FAILURE\<close> after having
  slept \<open>T\<close> times 1000 microseconds (and read the status \<open>T + 1\<close> times), so not before
  \<open>T\<close> milliseconds have passed; with timeout 0 the wait never returns, hence never
  returns a timeout failure.
\<close>

theorem WaitForCompletion_timeout:
  assumes "always_busy dev h"
  shows "(timeout_ms \<noteq> 0 \<longrightarrow>
           (\<exists>w'. CNN_WaitForCompletion dev (Some h) timeout_ms w = Some (XST_FAILURE, Some h, w')
              \<and> XST_FAILURE \<noteq> XST_SUCCESS
              \<and> slept_us w' = slept_us w + 1000 * unat timeout_ms
              \<and> reads w' = reads w + unat timeout_ms + 1
              \<and> writes_of w' = writes_of w))
       \<and> (timeout_ms = 0 \<longrightarrow> CNN_WaitForCompletion dev (Some h) timeout_ms w = None)"
proof (intro conjI impI)
  assume t: "timeout_ms \<noteq> 0"
  from wait_loop_timeout[OF assms t, of 0 "unat timeout_ms" w]
  obtain w' where "wait_loop dev timeout_ms 0 h w = Some (XST_FAILURE, h, w')"
    "slept_us w' = slept_us w + 1000 * unat timeout_ms" "reads w' = reads w + unat timeout_ms + 1"
    "writes_of w' = writes_of w" by auto
  then show "\<exists>w'. CNN_WaitForCompletion dev (Some h) timeout_ms w = Some (XST_FAILURE, Some h, w')
              \<and> XST_FAILURE \<noteq> XST_SUCCESS
              \<and> slept_us w' = slept_us w + 1000 * unat timeout_ms
              \<and> reads w' = reads w + unat timeout_ms + 1
              \<and> writes_of w' = writes_of w"
    by (simp add: CNN_WaitForCompletion_def XST_FAILURE_def XST_SUCCESS_def)
next
  assume "timeout_ms = 0"
  then show "CNN_WaitForCompletion dev (Some h) timeout_ms w = None"
    using wait_loop_unbounded[OF assms] by (simp add: CNN_WaitForCompletion_def)
qed

theorem WaitForCompletion_timeout_witness:
  "always_busy (dev_seq [] 1) default_handle
   \<and> (\<exists>w'. CNN_WaitForCompletion (dev_seq [] 1) (Some default_handle) 50 blank_world
             = Some (XST_FAILURE, Some default_handle, w')
          \<and> slept_us w' = 50000 \<and> reads w' = 51 \<and> writes_of w' = [])
   \<and> CNN_WaitForCompletion (dev_seq [] 1) (Some default_handle) 0 blank_world = None"
proof -
  have b: "always_busy (dev_seq [] 1) default_handle"
    by (simp add: always_busy_def dev_seq_def CNN_STAT_DONE_def CNN_STAT_BUSY_def)
  show ?thesis
    using b WaitForCompletion_timeout [OF b, of 50 blank_world]
          WaitForCompletion_timeout [OF b, of 0 blank_world]
    by (auto simp: blank_world_def slept_us_def writes_of_def)
qed

subsection \<open>Order of the error check and the re-read in the polled wait\<close>

text \<open>
  Claim C5 says that a status with busy and done clear is first re-read for done, and
  only then examined for error bits, so that an error nibble followed by a re-read
  showing done is a success.  The code tests the error bits of the first value before
  any re-read: with the reads answering \<open>0x10\<close> (error nibble set, idle) and then \<open>0x02\<close>
  (done), the wait returns \<open>XST_FAILURE\<close> after the single read, and the flag stays 0.
\<close>

theorem wait_error_then_done_counterexample:
  "CNN_WaitForCompletion (dev_seq [0x10, 0x02] 0x02) (Some default_handle) 50 blank_world
     = Some (XST_FAILURE, Some default_handle, \<lparr>reads = 1, events = [In32 0x80000004 0x10]\<rparr>)
   \<and> XST_FAILURE \<noteq> XST_SUCCESS"
  by (subst CNN_WaitForCompletion_def, subst wait_loop.simps)
     (simp add: wait_poll_def hw_defs dev_seq_def
      default_handle_def blank_world_def CNN_STAT_DONE_def CNN_STAT_BUSY_def CNN_STAT_ERROR_MASK_def
      CNN_REG_STATUS_def CNN_ACCEL_BASE_ADDR_def XST_FAILURE_def XST_SUCCESS_def)

text \<open>
  Claim C5, amended.  In any iteration of the wait loop, when the status read shows
  busy and done both clear: if an error bit of that value is set, the wait returns
  \<open>XST_FAILURE\<close> at once, with no further read and the handle unchanged; if no error bit
  is set and the immediate re-read shows done, it sets the completion flag and returns
  \<open>XST_SUCCESS\<close> after exactly these two reads.
\<close>

theorem wait_error_checked_before_reread:
  assumes "reg_in dev (reads w) (base_addr h + CNN_REG_STATUS) AND CNN_STAT_DONE = 0"
      and "reg_in dev (reads w) (base_addr h + CNN_REG_STATUS) AND CNN_STAT_BUSY = 0"
  shows "(reg_in dev (reads w) (base_addr h + CNN_REG_STATUS) AND CNN_STAT_ERROR_MASK \<noteq> 0 \<longrightarrow>
            wait_loop dev timeout_ms elapsed h w =
              Some (XST_FAILURE, h,
                    w\<lparr>reads := Suc (reads w),
                      events := events w @ [In32 (base_addr h + CNN_REG_STATUS)
                         (reg_in dev (reads w) (base_addr h + CNN_REG_STATUS))]\<rparr>))
       \<and> (reg_in dev (reads w) (base_addr h + CNN_REG_STATUS) AND CNN_STAT_ERROR_MASK = 0 \<and>
          reg_in dev (Suc (reads w)) (base_addr h + CNN_REG_STATUS) AND CNN_STAT_DONE \<noteq> 0 \<longrightarrow>
            wait_loop dev timeout_ms elapsed h w =
              Some (XST_SUCCESS, h\<lparr>inference_done := 1\<rparr>,
                    w\<lparr>reads := Suc (Suc (reads w)),
                      events := events w @
                        [In32 (base_addr h + CNN_REG_STATUS)
                           (reg_in dev (reads w) (base_addr h + CNN_REG_STATUS)),
                         In32 (base_addr h + CNN_REG_STATUS)
                           (reg_in dev (Suc (reads w)) (base_addr h + CNN_REG_STATUS))]\<rparr>))"
  using assms
  by (subst wait_loop.simps, subst wait_loop.simps) (simp add: wait_poll_def hw_defs Let_def)

theorem wait_error_checked_before_reread_witness:
  "wait_loop (dev_seq [0x10, 0x02] 0x02) 50 0 default_handle blank_world
     = Some (XST_FAILURE, default_handle, \<lparr>reads = 1, events = [In32 0x80000004 0x10]\<rparr>)
   \<and> wait_loop (dev_seq [0x00, 0x02] 0x02) 50 0 default_handle blank_world
     = Some (XST_SUCCESS, default_handle\<lparr>inference_done := 1\<rparr>,
             \<lparr>reads = 2, events = [In32 0x80000004 0x00, In32 0x80000004 0x02]\<rparr>)"
  using wait_error_checked_before_reread
          [of "dev_seq [0x10, 0x02] 0x02" blank_world default_handle 50 0]
        wait_error_checked_before_reread
          [of "dev_seq [0x00, 0x02] 0x02" blank_world default_handle 50 0]
  by (simp add: dev_seq_def default_handle_def blank_world_def CNN_STAT_DONE_def CNN_STAT_BUSY_def
      CNN_STAT_ERROR_MASK_def CNN_REG_STATUS_def CNN_ACCEL_BASE_ADDR_def)

subsection \<open>The class count is not validated\<close>

lemma softmax_exp_overrun:
  "length out - i = n \<Longrightarrow> i \<le> length out \<Longrightarrow> int (length out) < sz \<Longrightarrow>
     softmax_exp fp input sz max_val i (out, s) = Inl OutOfBounds"
proof (induction n arbitrary: i out s)
  case 0
  then show ?case by (subst softmax_exp.simps) simp
next
  case (Suc n)
  from Suc.prems have lt: "i < length out" and sz: "int i < sz" by simp_all
  have "softmax_exp fp input sz max_val (Suc i) (out[i := e], s') = Inl OutOfBounds" for e s'
    using Suc.prems by (intro Suc.IH) simp_all
  then show ?case using lt sz by (subst softmax_exp.simps) (simp add: Let_def)
qed

lemma Softmax_overrun:
  "int (length out) < sz \<Longrightarrow> CNN_Softmax fp input out sz = Inl OutOfBounds"
  using softmax_exp_overrun[of out 0 "length out" sz]
  by (simp add: CNN_Softmax_def Let_def)

text \<open>
  Claim C4.  \<open>CNN_Configure\<close> checks the width and the height only.  A configuration with
  200 classes is accepted and persisted, although \<open>CNN_MAX_CLASSES\<close> is 100; once the
  completion flag is set, \<open>CNN_GetResult\<close> on that handle runs \<open>CNN_Softmax\<close> over 200
  elements into its local array of \<open>CNN_MAX_CLASSES\<close> floats and writes past its end.
\<close>

theorem Configure_accepts_200_classes:
  "CNN_Configure (Some default_handle) (Some (default_config\<lparr>num_classes := 200\<rparr>)) blank_world
     = (XST_SUCCESS, Some (default_handle\<lparr>config := default_config\<lparr>num_classes := 200\<rparr>\<rparr>),
        \<lparr>reads = 0,
         events = [Out32 0x80000008 0x1FF, Out32 0x8000000C 0x800080, Out32 0x80000010 0x10000000,
                   Out32 0x80000014 0x18000000, Out32 0x80000018 0x20000000,
                   Out32 0x8000001C 0x28000000]\<rparr>)
   \<and> CNN_MAX_CLASSES < unat (num_classes (default_config\<lparr>num_classes := 200\<rparr>))
   \<and> CNN_GetResult dev fp
        (Some (default_handle\<lparr>config := default_config\<lparr>num_classes := 200\<rparr>, inference_done := 1\<rparr>))
        (Some res) w = Inl OutOfBounds"
proof (intro conjI)
  show "CNN_Configure (Some default_handle) (Some (default_config\<lparr>num_classes := 200\<rparr>)) blank_world
     = (XST_SUCCESS, Some (default_handle\<lparr>config := default_config\<lparr>num_classes := 200\<rparr>\<rparr>),
        \<lparr>reads = 0,
         events = [Out32 0x80000008 0x1FF, Out32 0x8000000C 0x800080, Out32 0x80000010 0x10000000,
                   Out32 0x80000014 0x18000000, Out32 0x80000018 0x20000000,
                   Out32 0x8000001C 0x28000000]\<rparr>)"
    by (simp add: CNN_Configure_def default_handle_def default_config_def blank_world_def hw_defs
        Let_def CNN_CFG_LAYER_EN_MASK_def CNN_CFG_ACT_MASK_def CNN_CFG_ACT_SHIFT_def
        CNN_CFG_POOL_TYPE_def CNN_REG_CONFIG_def CNN_REG_INPUT_DIM_def CNN_REG_WEIGHT_ADDR_def
        CNN_REG_BIAS_ADDR_def CNN_REG_INPUT_ADDR_def CNN_REG_OUTPUT_ADDR_def CNN_ACCEL_BASE_ADDR_def)
  show "CNN_MAX_CLASSES < unat (num_classes (default_config\<lparr>num_classes := 200\<rparr>))"
    by (simp add: CNN_MAX_CLASSES_def)
  have "CNN_Softmax fp input (replicate CNN_MAX_CLASSES 0) (uint (200 :: u8)) = Inl OutOfBounds"
    for input
    by (rule Softmax_overrun) (simp add: CNN_MAX_CLASSES_def)
  then show "CNN_GetResult dev fp
        (Some (default_handle\<lparr>config := default_config\<lparr>num_classes := 200\<rparr>, inference_done := 1\<rparr>))
        (Some res) w = Inl OutOfBounds"
    by (simp add: CNN_GetResult_def Let_def)
qed

subsection \<open>The completion flag\<close>

lemma wait_poll_flag:
  "wait_poll dev h w = (Some (r, h'), w') \<Longrightarrow> inference_done h \<noteq> 0 \<Longrightarrow> inference_done h' \<noteq> 0"
  by (auto simp: wait_poll_def Let_def split: if_splits prod.splits)

lemma wait_loop_flag:
  assumes y: "wait_loop dev t e h w = Some y" and f: "inference_done h \<noteq> 0"
  shows "inference_done (fst (snd y)) \<noteq> 0"
proof -
  have "inference_done h \<noteq> 0 \<longrightarrow> inference_done (fst (snd y)) \<noteq> 0"
  proof (rule wait_loop.raw_induct
           [where P = "\<lambda>dev t e h w y. inference_done h \<noteq> 0 \<longrightarrow> inference_done (fst (snd y)) \<noteq> 0",
            OF _ y], intro impI)
    fix wl dev' t e h' w' y'
    assume IH: "\<And>dev t e h w y. wl dev t e h w = Some y \<Longrightarrow>
                  inference_done h \<noteq> 0 \<longrightarrow> inference_done (fst (snd y)) \<noteq> 0"
      and body: "(case wait_poll dev' h' w' of
                    (None, w'') \<Rightarrow>
                      if 0 < t \<and> t \<le> e then Some (XST_FAILURE, h', w'')
                      else wl dev' t (e + poll_interval) h'
                             (usleep (unat (poll_interval * 1000)) w'')
                  | (Some (r, h''), w'') \<Rightarrow> Some (r, h'', w'')) = Some y'"
      and f': "inference_done h' \<noteq> 0"
    show "inference_done (fst (snd y')) \<noteq> 0"
    proof (cases "wait_poll dev' h' w'")
      case (Pair a w1)
      show ?thesis
      proof (cases a)
        case None
        with Pair body f' IH show ?thesis by (auto split: if_splits)
      next
        case (Some rh)
        with Pair body f' wait_poll_flag[of dev' h' w' "fst rh" "snd rh" w1] show ?thesis
          by (auto split: prod.splits)
      qed
    qed
  qed
  with f show ?thesis by simp
qed

text \<open>
  Claim C10 lists \<open>CNN_StartInference\<close>, \<open>CNN_Stop\<close> and \<open>CNN_Reset\<close> as the only functions
  that reset the completion flag.  \<open>CNN_Init\<close> resets it as well (it assigns 0 and then
  calls \<open>CNN_Reset\<close>): run on a handle whose flag is 1, it leaves the flag 0.
\<close>

theorem Init_resets_flag_counterexample:
  "exec (dev_seq [] 0) fpu_exact Init (Some (default_handle\<lparr>inference_done := 1\<rparr>), blank_world)
     = Some (Some default_handle,
             \<lparr>reads = 1,
              events = [Out32 0x80000000 4, Usleep 10, Out32 0x80000000 0,
                        Out32 0x80000024 0xFFFFFFFF, In32 0x80000004 0]\<rparr>)
   \<and> inference_done default_handle = 0"
  by (simp add: CNN_Init_def CNN_Reset_def default_handle_def default_config_def blank_world_def
      dev_seq_def hw_defs Let_def CNN_REG_CONTROL_def CNN_REG_STATUS_def CNN_REG_IRQ_STATUS_def
      CNN_CTRL_RESET_def CNN_ACCEL_BASE_ADDR_def DMA_VIDEO_BASE_ADDR_def DMA_WEIGHTS_BASE_ADDR_def)

text \<open>
  Claim C10, amended.  Once the completion flag is set, \<open>CNN_IsComplete\<close> returns 1 and
  leaves the handle and the log as they are, so it reads no register and its answer does
  not depend on the status register.  Every call of the driver other than \<open>CNN_Init\<close>,
  \<open>CNN_StartInference\<close>, \<open>CNN_Stop\<close> and \<open>CNN_Reset\<close> that returns leaves the flag set.
\<close>

theorem completion_flag_sticky:
  assumes "inference_done h \<noteq> 0"
  shows "CNN_IsComplete dev (Some h) w = (1, Some h, w)
       \<and> (call \<notin> {Init, Reset, Stop} \<and> (\<forall>a. call \<noteq> StartInference a) \<and>
          exec dev fp call (Some h, w) = Some (cnn', w')
          \<longrightarrow> (\<exists>h'. cnn' = Some h' \<and> inference_done h' \<noteq> 0))"
proof (intro conjI impI)
  show "CNN_IsComplete dev (Some h) w = (1, Some h, w)"
    using assms by (simp add: CNN_IsComplete_def)
next
  assume a: "call \<notin> {Init, Reset, Stop} \<and> (\<forall>a. call \<noteq> StartInference a) \<and>
          exec dev fp call (Some h, w) = Some (cnn', w')"
  show "\<exists>h'. cnn' = Some h' \<and> inference_done h' \<noteq> 0"
  proof (cases call)
    case (WaitForCompletion t)
    with a obtain r where "CNN_WaitForCompletion dev (Some h) t w = Some (r, cnn', w')" by auto
    then obtain h' where "wait_loop dev t 0 h w = Some (r, h', w')" "cnn' = Some h'"
      by (auto simp: CNN_WaitForCompletion_def split: option.splits)
    with wait_loop_flag[OF this(1) assms] show ?thesis by simp
  next
    case (Configure cfg)
    with a assms show ?thesis
      by (cases cfg) (auto simp: CNN_Configure_def Let_def split: if_splits)
  next
    case (GetResult res)
    with a assms show ?thesis by (auto split: sum.splits)
  qed (use a assms in \<open>auto simp: CNN_LoadWeights_def CNN_LoadBiases_def CNN_IsComplete_def
        CNN_InterruptHandler_def Let_def split: option.splits if_splits prod.splits\<close>)
qed

theorem completion_flag_sticky_witness:
  "inference_done (default_handle\<lparr>inference_done := 1\<rparr>) \<noteq> 0
   \<and> CNN_IsComplete (dev_seq [] 0) (Some (default_handle\<lparr>inference_done := 1\<rparr>)) blank_world
       = (1, Some (default_handle\<lparr>inference_done := 1\<rparr>), blank_world)
   \<and> exec (dev_seq [] 0) fpu_exact (Configure (Some (default_config\<lparr>input_width := 0\<rparr>)))
        (Some (default_handle\<lparr>inference_done := 1\<rparr>), blank_world)
       = Some (Some (default_handle\<lparr>inference_done := 1\<rparr>), blank_world)"
  using completion_flag_sticky
          [of "default_handle\<lparr>inference_done := 1\<rparr>" "dev_seq [] 0" blank_world
              "Configure (Some (default_config\<lparr>input_width := 0\<rparr>))" fpu_exact
              "Some (default_handle\<lparr>inference_done := 1\<rparr>)" blank_world]
  by (simp add: CNN_Configure_def default_config_def)

section \<open>Properties of the fixed-point conversion\<close>

lemma binary32_int: "\<bar>k\<bar> \<le> 32768 \<Longrightarrow> binary32 (of_int k)"
  unfolding binary32_def by (rule exI[of _ k], rule exI[of _ 0]) simp

lemma two_powr_m8: "(2::real) powr of_int (- 8) = 1 / 256"
proof -
  have "(2::real) powr of_int (- 8) = 1 / (2 powr 8)" by (simp add: powr_minus_divide)
  also have "(2::real) powr 8 = 2 ^ 8" by (rule powr_numeral) simp
  finally show ?thesis by simp
qed

lemma binary32_q8_8:
  assumes "\<bar>k\<bar> \<le> 32768"
  shows "binary32 (of_int k / 256)"
proof -
  have "of_int k / 256 = of_int k * (2::real) powr of_int (- 8)" unfolding two_powr_m8 by simp
  moreover have "\<bar>k\<bar> < 2 ^ 24" using assms by simp
  ultimately show ?thesis unfolding binary32_def by (intro exI[of _ k] exI[of _ "- 8"]) simp
qed

lemma float_to_int16_sint: "float_to_int16 (of_int (sint v)) = v"
proof -
  have "word_of_int (sint v) = v" by (metis scast_id of_int_sint)
  then show ?thesis by (simp add: float_to_int16_def del: of_int_sint)
qed

text \<open>
  Claim C9.  For every 16-bit value \<open>v\<close>, converting to float and back gives \<open>v\<close> again.
  The integer \<open>v\<close>, the quotient \<open>v / 256\<close> and the product \<open>(v / 256) * 256\<close> are
  \<open>binary32\<close> values, so the three roundings leave them as they are; this is all that is
  required of the floating-point unit.
\<close>

theorem fixed_float_roundtrip:
  assumes "exact_on_binary32 fp"
  shows "CNN_FloatToFixed fp (CNN_FixedToFloat fp v) = v"
proof -
  define k where "k = sint v"
  have k: "\<bar>k\<bar> \<le> 32768" unfolding k_def using sint_ge[of v] sint_lt[of v] by simp
  have 1: "fround fp (of_int k) = of_int k"
    using assms binary32_int[OF k] by (simp add: exact_on_binary32_def)
  have 2: "fround fp (of_int k / 256) = of_int k / 256"
    using assms binary32_q8_8[OF k] by (simp add: exact_on_binary32_def)
  have 3: "CNN_FixedToFloat fp v = of_int k / 256"
    unfolding CNN_FixedToFloat_def k_def[symmetric] Q8_8_SCALE_def by (simp only: 1 2)
  have 4: "fround fp (of_int k / 256 * 256) = of_int k" using 1 by simp
  have lo: "- 32768 \<le> k" and hi: "k \<le> 32767"
    using sint_ge[of v] sint_lt[of v] by (simp_all add: k_def)
  have lo': "\<not> real_of_int k < - 32768" using lo by linarith
  have hi': "\<not> real_of_int k > 32767" using hi by linarith
  have 5: "float_to_int16 (of_int k) = v" unfolding k_def by (rule float_to_int16_sint)
  show ?thesis
    unfolding 3 CNN_FloatToFixed_def Q8_8_SCALE_def 4 Let_def using lo' hi' 5 by simp
qed

theorem fixed_float_roundtrip_witness:
  "exact_on_binary32 fpu_exact
   \<and> CNN_FloatToFixed fpu_exact (CNN_FixedToFloat fpu_exact (- 300)) = - 300"
proof -
  have e: "exact_on_binary32 fpu_exact" by (simp add: exact_on_binary32_def fpu_exact_def)
  show ?thesis using e fixed_float_roundtrip [OF e, of "- 300"] by simp
qed

section \<open>Properties of top-K selection\<close>

subsection \<open>The inner loop\<close>

lemma scan_inv_step_selected:
  "scan_inv probs selected i acc \<Longrightarrow> selected ! i \<noteq> 0 \<Longrightarrow> scan_inv probs selected (Suc i) acc"
  by (auto simp: scan_inv_def less_Suc_eq split: prod.splits)

lemma scan_inv_step_keep:
  "scan_inv probs selected i (mp, mi) \<Longrightarrow> selected ! i = 0 \<Longrightarrow> \<not> probs ! i > mp \<Longrightarrow> - 1 < probs ! i
     \<Longrightarrow> scan_inv probs selected (Suc i) (mp, mi)"
  by (auto simp: scan_inv_def less_Suc_eq)

lemma scan_inv_step_take:
  "scan_inv probs selected i (mp, mi) \<Longrightarrow> selected ! i = 0 \<Longrightarrow> probs ! i > mp
     \<Longrightarrow> scan_inv probs selected (Suc i) (probs ! i, int i)"
  by (fastforce simp: scan_inv_def less_Suc_eq)

lemma topk_scan_inv:
  assumes pos: "\<forall>p \<in> set probs. - 1 < p" and len: "length probs \<le> length selected"
  shows "length probs - i = n \<Longrightarrow> i \<le> length probs \<Longrightarrow> scan_inv probs selected i acc \<Longrightarrow>
     \<exists>acc'. topk_scan probs (int (length probs)) selected i acc = Inr acc'
          \<and> scan_inv probs selected (length probs) acc'"
proof (induction n arbitrary: i acc)
  case 0
  then have "i = length probs" by simp
  with 0 show ?case by (cases acc) (simp add: topk_scan.simps)
next
  case (Suc n)
  obtain mp mi where acc: "acc = (mp, mi)" by (cases acc)
  from Suc.prems have lt: "i < length probs" by simp
  then have lts: "i < length selected" using len by simp
  have pi: "- 1 < probs ! i" using pos lt by simp
  have n: "length probs - Suc i = n" and le: "Suc i \<le> length probs" using Suc.prems lt by simp_all
  show ?case
  proof (cases "selected ! i \<noteq> 0")
    case True
    from Suc.IH[OF n le scan_inv_step_selected[OF Suc.prems(3) True]] lt lts True
    show ?thesis unfolding acc by (subst topk_scan.simps) simp
  next
    case sel: False
    show ?thesis
    proof (cases "probs ! i > mp")
      case True
      from Suc.IH[OF n le scan_inv_step_take[OF Suc.prems(3)[unfolded acc] _ True]] sel lt lts True
      show ?thesis unfolding acc by (subst topk_scan.simps) simp
    next
      case False
      from Suc.IH[OF n le scan_inv_step_keep[OF Suc.prems(3)[unfolded acc] _ False pi]] sel lt lts False
      show ?thesis unfolding acc by (subst topk_scan.simps) simp
    qed
  qed
qed

lemma scan_inv_init: "scan_inv probs selected 0 (- 1, - 1)"
  by (simp add: scan_inv_def)

subsection \<open>The first maximum of the candidates\<close>

lemma hd_filter_first:
  "sorted_wrt (<) xs \<Longrightarrow> j \<in> set xs \<Longrightarrow> P j \<Longrightarrow> \<forall>c \<in> set xs. c < j \<longrightarrow> \<not> P c
     \<Longrightarrow> hd (filter P xs) = (j :: nat)"
proof (induction xs)
  case Nil
  then show ?case by simp
next
  case (Cons x xs)
  show ?case
  proof (cases "x = j")
    case True
    with Cons.prems show ?thesis by simp
  next
    case False
    with Cons.prems have "j \<in> set xs" "x < j" by auto
    with Cons show ?thesis by auto
  qed
qed

lemma hd_filter_props:
  "sorted_wrt (<) xs \<Longrightarrow> \<exists>x \<in> set xs. P x \<Longrightarrow>
     hd (filter P xs) \<in> set xs \<and> P (hd (filter P xs)) \<and>
     (\<forall>c \<in> set xs. c < (hd (filter P xs) :: nat) \<longrightarrow> \<not> P c)"
proof (induction xs)
  case Nil
  then show ?case by simp
next
  case (Cons x xs)
  show ?case
  proof (cases "P x")
    case True
    with Cons.prems show ?thesis by auto
  next
    case False
    with Cons.prems have "\<exists>x \<in> set xs. P x" "sorted_wrt (<) xs" by auto
    from Cons.IH[OF this(2) this(1)] False Cons.prems show ?thesis by auto
  qed
qed

lemma sorted_candidates: "sorted_wrt (<) (candidates probs sel)"
  by (simp add: candidates_def sorted_wrt_filter)

lemma set_candidates: "set (candidates probs sel) = {i. i < length probs \<and> i \<notin> set sel}"
  by (auto simp: candidates_def)

lemma ex_max_list:
  "xs \<noteq> [] \<Longrightarrow> \<exists>i \<in> set xs. \<forall>c \<in> set xs. (f c :: real) \<le> f i"
proof (induction xs)
  case Nil
  then show ?case by simp
next
  case (Cons x xs)
  show ?case
  proof (cases "xs = []")
    case True
    then show ?thesis by simp
  next
    case False
    from Cons.IH[OF this] obtain i where i: "i \<in> set xs" "\<forall>c \<in> set xs. f c \<le> f i" by blast
    show ?thesis
    proof (cases "f x \<le> f i")
      case True
      with i show ?thesis by auto
    next
      case False
      with i have "\<forall>c \<in> set (x # xs). f c \<le> f x" by fastforce
      then show ?thesis by auto
    qed
  qed
qed

lemma pick_props:
  assumes "candidates probs sel \<noteq> []"
  shows "pick probs (candidates probs sel) \<in> set (candidates probs sel)"
    and "\<forall>c \<in> set (candidates probs sel). probs ! c \<le> probs ! pick probs (candidates probs sel)"
    and "\<forall>c \<in> set (candidates probs sel). c < pick probs (candidates probs sel) \<longrightarrow>
            probs ! c < probs ! pick probs (candidates probs sel)"
proof -
  let ?cand = "candidates probs sel"
  let ?P = "\<lambda>i. \<forall>c \<in> set ?cand. probs ! c \<le> probs ! i"
  have ex: "\<exists>x \<in> set ?cand. ?P x" using ex_max_list[OF assms, of "\<lambda>i. probs ! i"] .
  from hd_filter_props[OF sorted_candidates, of probs sel ?P, OF ex]
  have p: "pick probs ?cand \<in> set ?cand" "?P (pick probs ?cand)"
    "\<forall>c \<in> set ?cand. c < pick probs ?cand \<longrightarrow> \<not> ?P c"
    by (simp_all add: pick_def)
  show "pick probs ?cand \<in> set ?cand" by (rule p(1))
  show "?P (pick probs ?cand)" by (rule p(2))
  show "\<forall>c \<in> set ?cand. c < pick probs ?cand \<longrightarrow> probs ! c < probs ! pick probs ?cand"
  proof (intro ballI impI)
    fix c assume c: "c \<in> set ?cand" "c < pick probs ?cand"
    with p(3) obtain d where d: "d \<in> set ?cand" "\<not> probs ! d \<le> probs ! c" by blast
    with p(2) have "probs ! d \<le> probs ! pick probs ?cand" by blast
    with d(2) show "probs ! c < probs ! pick probs ?cand" by linarith
  qed
qed

lemma scan_result:
  assumes pos: "\<forall>p \<in> set probs. - 1 < p" and len: "length probs \<le> length selected"
      and m: "marks selected sel (length probs)"
  shows "topk_scan probs (int (length probs)) selected 0 (- 1, - 1) =
    (if candidates probs sel = [] then Inr (- 1, - 1)
     else Inr (probs ! pick probs (candidates probs sel), int (pick probs (candidates probs sel))))"
proof -
  let ?cand = "candidates probs sel"
  have cs: "set ?cand = {i. i < length probs \<and> selected ! i = 0}"
    using m by (auto simp: set_candidates marks_def)
  from topk_scan_inv[OF pos len, of 0 "length probs" "(- 1, - 1)"] scan_inv_init
  obtain mp mi where r: "topk_scan probs (int (length probs)) selected 0 (- 1, - 1) = Inr (mp, mi)"
    and inv: "scan_inv probs selected (length probs) (mp, mi)" by auto
  show ?thesis
  proof (cases "mi = - 1")
    case True
    with inv have "mp = - 1" "\<forall>c<length probs. selected ! c \<noteq> 0" by (auto simp: scan_inv_def)
    then have "set ?cand = {}" using cs by auto
    then show ?thesis using r True \<open>mp = - 1\<close> by simp
  next
    case False
    with inv have j: "0 \<le> mi" "nat mi < length probs" "selected ! nat mi = 0" "mp = probs ! nat mi"
      "\<forall>c<length probs. selected ! c = 0 \<longrightarrow> probs ! c \<le> mp"
      "\<forall>c<nat mi. selected ! c = 0 \<longrightarrow> probs ! c < mp" by (auto simp: scan_inv_def)
    have in_c: "nat mi \<in> set ?cand" using j cs by simp
    then have ne: "?cand \<noteq> []" by auto
    let ?P = "\<lambda>i. \<forall>c \<in> set ?cand. probs ! c \<le> probs ! i"
    have P: "?P (nat mi)" using j cs by auto
    have first: "\<forall>c \<in> set ?cand. c < nat mi \<longrightarrow> \<not> ?P c"
    proof (intro ballI impI notI)
      fix c assume "c \<in> set ?cand" "c < nat mi" "?P c"
      then have "probs ! c < mp" "probs ! nat mi \<le> probs ! c" using j(6) cs in_c by auto
      then show False using j(4) by simp
    qed
    have "pick probs ?cand = nat mi"
      unfolding pick_def by (rule hd_filter_first[OF sorted_candidates in_c P first])
    then show ?thesis using r ne j by simp
  qed
qed

subsection \<open>The reference algorithm\<close>

lemma candidates_Cons:
  "candidates probs (j # sel) = filter (\<lambda>i. i \<noteq> j) (candidates probs sel)"
  by (auto simp: candidates_def intro: filter_cong)

lemma distinct_candidates: "distinct (candidates probs sel)"
  by (simp add: candidates_def)

lemma length_filter_neq:
  "distinct xs \<Longrightarrow> j \<in> set xs \<Longrightarrow> Suc (length (filter (\<lambda>i. i \<noteq> j) xs)) = length xs"
proof (induction xs)
  case Nil
  then show ?case by simp
next
  case (Cons x xs)
  show ?case
  proof (cases "x = j")
    case True
    with Cons.prems have "j \<notin> set xs" by simp
    then have "filter (\<lambda>i. i \<noteq> j) xs = xs" by (auto simp: filter_id_conv)
    with True show ?thesis by simp
  next
    case False
    with Cons show ?thesis by simp
  qed
qed

lemma length_candidates_Cons:
  "j \<in> set (candidates probs sel) \<Longrightarrow>
     Suc (length (candidates probs (j # sel))) = length (candidates probs sel)"
  by (simp add: candidates_Cons length_filter_neq distinct_candidates)

lemma length_spec_rounds:
  "length (spec_rounds probs m sel) = min m (length (candidates probs sel))"
proof (induction m arbitrary: sel)
  case 0
  then show ?case by simp
next
  case (Suc m)
  show ?case
  proof (cases "candidates probs sel = []")
    case True
    then show ?thesis by simp
  next
    case False
    from length_candidates_Cons[OF pick_props(1)[OF False]] Suc.IH False
    show ?thesis by (simp add: Let_def)
  qed
qed

lemma spec_rounds_entries:
  "e \<in> set (spec_rounds probs m sel) \<Longrightarrow>
     \<exists>j \<in> set (candidates probs sel). e = \<lparr>class_id = int j, confidence = probs ! j\<rparr>"
proof (induction m arbitrary: sel)
  case 0
  then show ?case by simp
next
  case (Suc m)
  show ?case
  proof (cases "candidates probs sel = []")
    case True
    with Suc.prems show ?thesis by simp
  next
    case False
    let ?j = "pick probs (candidates probs sel)"
    from Suc.prems False
    have "e = \<lparr>class_id = int ?j, confidence = probs ! ?j\<rparr> \<or> e \<in> set (spec_rounds probs m (?j # sel))"
      by (simp add: Let_def)
    then show ?thesis
    proof
      assume "e = \<lparr>class_id = int ?j, confidence = probs ! ?j\<rparr>"
      with pick_props(1)[OF False] show ?thesis by blast
    next
      assume "e \<in> set (spec_rounds probs m (?j # sel))"
      from Suc.IH[OF this] show ?thesis by (auto simp: candidates_Cons)
    qed
  qed
qed

lemma sorted_spec_rounds:
  "sorted_wrt (\<lambda>a b. confidence b \<le> confidence a) (spec_rounds probs m sel)"
proof (induction m arbitrary: sel)
  case 0
  then show ?case by simp
next
  case (Suc m)
  show ?case
  proof (cases "candidates probs sel = []")
    case True
    then show ?thesis by simp
  next
    case False
    let ?j = "pick probs (candidates probs sel)"
    have "confidence e \<le> probs ! ?j" if "e \<in> set (spec_rounds probs m (?j # sel))" for e
    proof -
      from spec_rounds_entries[OF that] obtain c where
        "c \<in> set (candidates probs (?j # sel))" "e = \<lparr>class_id = int c, confidence = probs ! c\<rparr>" by blast
      with pick_props(2)[OF False] show ?thesis by (auto simp: candidates_Cons)
    qed
    with Suc.IH[of "?j # sel"] False show ?thesis by (simp add: Let_def)
  qed
qed

lemma marks_update:
  "marks selected sel n \<Longrightarrow> j < length selected \<Longrightarrow> marks (selected[j := 1]) (j # sel) n"
  by (auto simp: marks_def nth_list_update)

lemma rounds_refine:
  assumes pos: "\<forall>p \<in> set probs. - 1 < p"
  shows "nat (top_k - int k) = m \<Longrightarrow> length probs \<le> length selected \<Longrightarrow>
     marks selected sel (length probs) \<Longrightarrow>
     (spec_rounds probs m sel \<noteq> [] \<longrightarrow> k + length (spec_rounds probs m sel) \<le> length results) \<Longrightarrow>
     topk_rounds probs (int (length probs)) top_k k (selected, results)
       = Inr (take k results @ spec_rounds probs m sel @
              drop (k + length (spec_rounds probs m sel)) results)"
proof (induction m arbitrary: k selected sel results)
  case 0
  then have "\<not> int k < top_k" by simp
  then show ?case by (subst topk_rounds.simps) simp
next
  case (Suc m)
  then have lt: "int k < top_k" and m: "nat (top_k - int (Suc k)) = m" by simp_all
  note scan = scan_result[OF pos Suc.prems(2,3)]
  show ?case
  proof (cases "candidates probs sel = []")
    case True
    then have s0: "spec_rounds probs m sel = []" by (cases m) simp_all
    from Suc.IH[OF m Suc.prems(2,3), of results] s0
    have "topk_rounds probs (int (length probs)) top_k (Suc k) (selected, results) = Inr results"
      by simp
    with True lt scan show ?thesis by (subst topk_rounds.simps) simp
  next
    case False
    let ?j = "pick probs (candidates probs sel)"
    let ?r = "\<lparr>class_id = int ?j, confidence = probs ! ?j\<rparr>"
    let ?S' = "spec_rounds probs m (?j # sel)"
    have S: "spec_rounds probs (Suc m) sel = ?r # ?S'" using False by (simp add: Let_def)
    with Suc.prems(4) have cap: "Suc (k + length ?S') \<le> length results" by simp
    then have k: "k < length results" by simp
    have j: "?j < length probs" using pick_props(1)[OF False] by (simp add: set_candidates)
    then have js: "?j < length selected" using Suc.prems(2) by simp
    have IH: "topk_rounds probs (int (length probs)) top_k (Suc k) (selected[?j := 1], results[k := ?r])
        = Inr (take (Suc k) (results[k := ?r]) @ ?S' @ drop (Suc k + length ?S') (results[k := ?r]))"
      using cap by (intro Suc.IH[OF m _ marks_update[OF Suc.prems(3) js]]) (simp_all add: Suc.prems(2))
    have t: "take (Suc k) (results[k := ?r]) = take k results @ [?r]"
      using k by (simp add: take_Suc_conv_app_nth)
    have d: "drop (Suc k + length ?S') (results[k := ?r]) = drop (Suc (k + length ?S')) results"
      by simp
    have "topk_rounds probs (int (length probs)) top_k k (selected, results)
        = topk_rounds probs (int (length probs)) top_k (Suc k) (selected[?j := 1], results[k := ?r])"
      using False lt scan k js by (subst topk_rounds.simps) simp
    then show ?thesis unfolding IH S t d by simp
  qed
qed

lemma candidates_Nil: "candidates probs [] = [0..<length probs]"
  by (simp add: candidates_def)

lemma marks_init: "n \<le> CNN_MAX_CLASSES \<Longrightarrow> marks (replicate CNN_MAX_CLASSES 0) [] n"
  by (simp add: marks_def)

subsection \<open>More classes than the local array holds\<close>

lemma topk_scan_overrun:
  "length selected - i = k \<Longrightarrow> i \<le> length selected \<Longrightarrow> length selected < length probs \<Longrightarrow>
     topk_scan probs (int (length probs)) selected i acc = Inl OutOfBounds"
proof (induction k arbitrary: i acc)
  case 0
  then have "i = length selected" by simp
  with 0 show ?case by (cases acc) (simp add: topk_scan.simps)
next
  case (Suc k)
  obtain mp mi where acc: "acc = (mp, mi)" by (cases acc)
  from Suc.prems have lt: "i < length selected" "i < length probs" by simp_all
  have IH: "topk_scan probs (int (length probs)) selected (Suc i) a = Inl OutOfBounds" for a
    using Suc.prems by (intro Suc.IH) simp_all
  show ?case unfolding acc using lt by (subst topk_scan.simps) (simp add: IH)
qed

lemma GetTopK_overrun:
  "CNN_MAX_CLASSES < length probs \<Longrightarrow> 0 < top_k \<Longrightarrow>
     CNN_GetTopK probs (int (length probs)) top_k results = Inl OutOfBounds"
  using topk_scan_overrun[of "replicate CNN_MAX_CLASSES 0" 0 CNN_MAX_CLASSES probs "(- 1, - 1)"]
  by (simp add: CNN_GetTopK_def) (subst topk_rounds.simps, simp)

text \<open>
  Claim C8 is stated for every length \<open>N\<close>.  The local array \<open>selected\<close> has
  \<open>CNN_MAX_CLASSES\<close> entries and the scan reads \<open>selected[i]\<close> for every \<open>i\<close> below
  \<open>N\<close>: for 101 probabilities and \<open>k = 1\<close> the first round reads \<open>selected[100]\<close>,
  outside the array, where the reference selection yields index 0.
\<close>

theorem GetTopK_101_counterexample:
  "CNN_GetTopK (replicate 101 (1 / 2)) 101 1 [\<lparr>class_id = 0, confidence = 0\<rparr>] = Inl OutOfBounds
   \<and> spec_TopK (replicate 101 (1 / 2)) 1 = [\<lparr>class_id = 0, confidence = 1 / 2\<rparr>]"
proof
  show "CNN_GetTopK (replicate 101 (1 / 2)) 101 1 [\<lparr>class_id = 0, confidence = 0\<rparr>] = Inl OutOfBounds"
    using GetTopK_overrun[of "replicate 101 (1 / 2)" 1 "[\<lparr>class_id = 0, confidence = 0\<rparr>]"]
    by (simp add: CNN_MAX_CLASSES_def)
  have c: "candidates (replicate 101 (1 / 2)) [] = [0..<101]" by (simp add: candidates_def)
  have p: "pick (replicate 101 (1 / 2)) [0..<101] = 0"
  proof -
    have "filter (\<lambda>i. \<forall>c \<in> set [0..<101]. replicate 101 (1 / 2 :: real) ! c \<le> replicate 101 (1 / 2) ! i) [0..<101]
          = [0..<101]"
      by (rule filter_True) simp
    then show ?thesis unfolding pick_def by (simp del: upt_Suc)   
  qed
  have ne: "[0..<101] \<noteq> ([] :: nat list)" by (simp del: upt_Suc)
  show "spec_TopK (replicate 101 (1 / 2)) 1 = [\<lparr>class_id = 0, confidence = 1 / 2\<rparr>]"
    unfolding spec_TopK_def by (simp add: c p ne Let_def del: upt_Suc)
qed

subsection \<open>Refinement\<close>

text \<open>
  Claim C8, amended.  For a probability array (values in \<open>[0, 1]\<close>) of length \<open>N\<close> not
  above \<open>CNN_MAX_CLASSES\<close>, the extent of the local array \<open>selected\<close>, and a result
  array with room for \<open>min k N\<close> entries, \<open>CNN_GetTopK\<close> writes exactly what the
  repeated selection of the specification produces into the first \<open>min k N\<close> entries of
  the result array and leaves the rest as it was.  Hence only \<open>N\<close> results are produced
  when \<open>k\<close> exceeds \<open>N\<close>, the confidences do not increase along the result, and the
  first entry holds the first index of the largest probability.
\<close>

theorem GetTopK_repeated_selection:
  assumes prob: "\<forall>p \<in> set probs. 0 \<le> p \<and> p \<le> 1"
      and len: "length probs \<le> CNN_MAX_CLASSES"
      and cap: "min (nat top_k) (length probs) \<le> length results"
  shows "CNN_GetTopK probs (int (length probs)) top_k results
           = Inr (spec_TopK probs top_k @ drop (min (nat top_k) (length probs)) results)
       \<and> length (spec_TopK probs top_k) = min (nat top_k) (length probs)
       \<and> sorted_wrt (\<lambda>a b. confidence b \<le> confidence a) (spec_TopK probs top_k)
       \<and> (0 < top_k \<and> probs \<noteq> [] \<longrightarrow>
            (\<exists>j < length probs.
                hd (spec_TopK probs top_k) = \<lparr>class_id = int j, confidence = probs ! j\<rparr>
              \<and> (\<forall>i < length probs. probs ! i \<le> probs ! j)
              \<and> (\<forall>i < j. probs ! i < probs ! j)))"
proof (intro conjI impI)
  have pos: "\<forall>p \<in> set probs. - 1 < p" using prob by fastforce
  show l: "length (spec_TopK probs top_k) = min (nat top_k) (length probs)"
    by (simp add: spec_TopK_def length_spec_rounds candidates_Nil)
  have "topk_rounds probs (int (length probs)) top_k 0 (replicate CNN_MAX_CLASSES 0, results)
       = Inr (take 0 results @ spec_rounds probs (nat top_k) [] @
              drop (0 + length (spec_rounds probs (nat top_k) [])) results)"
    using len cap l
    by (intro rounds_refine[OF pos _ _ marks_init]) (simp_all add: spec_TopK_def)
  then show "CNN_GetTopK probs (int (length probs)) top_k results
           = Inr (spec_TopK probs top_k @ drop (min (nat top_k) (length probs)) results)"
    using l by (simp add: CNN_GetTopK_def spec_TopK_def)
  show "sorted_wrt (\<lambda>a b. confidence b \<le> confidence a) (spec_TopK probs top_k)"
    unfolding spec_TopK_def by (rule sorted_spec_rounds)
next
  assume a: "0 < top_k \<and> probs \<noteq> []"
  then obtain m where m: "nat top_k = Suc m" by (cases "nat top_k") auto
  have ne: "candidates probs [] \<noteq> []" using a by (simp add: candidates_Nil)
  let ?j = "pick probs (candidates probs [])"
  have h: "hd (spec_TopK probs top_k) = \<lparr>class_id = int ?j, confidence = probs ! ?j\<rparr>"
    using ne by (simp add: spec_TopK_def m Let_def)
  from pick_props[OF ne]
  have "?j < length probs" "\<forall>i < length probs. probs ! i \<le> probs ! ?j"
       "\<forall>i < ?j. probs ! i < probs ! ?j"
    by (auto simp: candidates_Nil)
  with h show "\<exists>j < length probs.
                hd (spec_TopK probs top_k) = \<lparr>class_id = int j, confidence = probs ! j\<rparr>
              \<and> (\<forall>i < length probs. probs ! i \<le> probs ! j)
              \<and> (\<forall>i < j. probs ! i < probs ! j)" by blast
qed

theorem GetTopK_repeated_selection_witness:
  "CNN_GetTopK [1/4, 3/8, 3/8] 3 5 (replicate 4 \<lparr>class_id = - 7, confidence = 0\<rparr>)
       = Inr [\<lparr>class_id = 1, confidence = 3/8\<rparr>, \<lparr>class_id = 2, confidence = 3/8\<rparr>,
              \<lparr>class_id = 0, confidence = 1/4\<rparr>, \<lparr>class_id = - 7, confidence = 0\<rparr>]"
proof -
  have s: "spec_TopK [1/4, 3/8, 3/8] 5 =
     [\<lparr>class_id = 1, confidence = 3/8\<rparr>, \<lparr>class_id = 2, confidence = 3/8\<rparr>,
      \<lparr>class_id = 0, confidence = 1/4\<rparr>]"
    by (simp add: spec_TopK_def eval_nat_numeral candidates_def pick_def Let_def upt_rec)
  show ?thesis
    using GetTopK_repeated_selection
            [of "[1/4, 3/8, 3/8]" 5 "replicate 4 \<lparr>class_id = - 7, confidence = 0\<rparr>"]
    by (simp add: s CNN_MAX_CLASSES_def)
qed

section \<open>Properties of softmax\<close>

subsection \<open>The three loops\<close>

lemma softmax_max_ref:
  "nat sz - i = k \<Longrightarrow> 1 \<le> i \<Longrightarrow> int i \<le> sz \<Longrightarrow>
     softmax_max fp input sz i (ref_max (decoded fp input) i) = ref_max (decoded fp input) (nat sz)"
proof (induction k arbitrary: i)
  case 0
  then have "i = nat sz" by simp
  with 0 show ?case by (subst softmax_max.simps) simp
next
  case (Suc k)
  then have lt: "int i < sz" by simp
  have m: "(if decoded fp input i > ref_max (decoded fp input) i then decoded fp input i
            else ref_max (decoded fp input) i) = ref_max (decoded fp input) (Suc i)"
    by (simp add: max_def)
  have "softmax_max fp input sz (Suc i) (ref_max (decoded fp input) (Suc i))
          = ref_max (decoded fp input) (nat sz)"
    using Suc.prems lt by (intro Suc.IH) simp_all
  then show ?case using lt m
    by (subst softmax_max.simps) (simp add: Let_def decoded_def[symmetric])
qed

lemma softmax_max_whole:
  "1 \<le> n \<Longrightarrow> softmax_max fp input (int n) 1 (CNN_FixedToFloat fp (input 0))
      = ref_max (decoded fp input) n"
  using softmax_max_ref[of "int n" 1 "n - 1" fp input] by (simp add: decoded_def)

lemma softmax_exp_ref:
  "n - i = k \<Longrightarrow> i \<le> n \<Longrightarrow> n \<le> length out \<Longrightarrow>
   (\<And>j. e j = fexp fp (fround fp (CNN_FixedToFloat fp (input j) - m))) \<Longrightarrow>
     softmax_exp fp input (int n) m i (out, float_sum fp e i)
       = Inr (take i out @ map e [i..<n] @ drop n out, float_sum fp e n)"
proof (induction k arbitrary: i out)
  case 0
  then have "i = n" by simp
  then show ?case by (subst softmax_exp.simps) simp
next
  case (Suc k)
  then have lt: "i < n" and lo: "i < length out" by simp_all
  have IH: "softmax_exp fp input (int n) m (Suc i) (out[i := e i], float_sum fp e (Suc i))
       = Inr (take (Suc i) (out[i := e i]) @ map e [Suc i..<n] @ drop n (out[i := e i]), float_sum fp e n)"
    using Suc.prems lt by (intro Suc.IH) simp_all
  have t: "take (Suc i) (out[i := e i]) = take i out @ [e i]"
    using lo by (simp add: take_Suc_conv_app_nth)
  have d: "drop n (out[i := e i]) = drop n out" using lt by simp
  have u: "[i..<n] = i # [Suc i..<n]" using lt by (simp add: upt_rec)
  show ?case using lt lo IH
    by (subst softmax_exp.simps) (simp add: Let_def Suc.prems(4)[symmetric] t d u)
qed

lemma softmax_norm_ref:
  "n - i = k \<Longrightarrow> i \<le> n \<Longrightarrow> n \<le> length out \<Longrightarrow>
     softmax_norm fp (int n) s i out
       = Inr (take i out @ map (\<lambda>j. fround fp (out ! j / s)) [i..<n] @ drop n out)"
proof (induction k arbitrary: i out)
  case 0
  then have "i = n" by simp
  then show ?case by (subst softmax_norm.simps) simp
next
  case (Suc k)
  then have lt: "i < n" and lo: "i < length out" by simp_all
  let ?o = "out[i := fround fp (out ! i / s)]"
  have IH: "softmax_norm fp (int n) s (Suc i) ?o
       = Inr (take (Suc i) ?o @ map (\<lambda>j. fround fp (?o ! j / s)) [Suc i..<n] @ drop n ?o)"
    using Suc.prems lt by (intro Suc.IH) simp_all
  have t: "take (Suc i) ?o = take i out @ [fround fp (out ! i / s)]"
    using lo by (simp add: take_Suc_conv_app_nth)
  have d: "drop n ?o = drop n out" using lt by simp
  have u: "[i..<n] = i # [Suc i..<n]" using lt by (simp add: upt_rec)
  have mp: "map (\<lambda>j. fround fp (?o ! j / s)) [Suc i..<n] = map (\<lambda>j. fround fp (out ! j / s)) [Suc i..<n]"
    by (rule map_cong) auto
  show ?case using lt lo IH
    by (subst softmax_norm.simps) (simp add: t d u mp)
qed

lemma Softmax_structure:
  assumes "1 \<le> n" "n \<le> length out"
  shows "CNN_Softmax fp input out (int n) = Inr (spec_Softmax fp input n @ drop n out)"
proof -
  let ?m = "ref_max (decoded fp input) n"
  let ?e = "ref_exp fp input n"
  have e: "\<And>j. ?e j = fexp fp (fround fp (CNN_FixedToFloat fp (input j) - ?m))"
    by (simp add: ref_exp_def decoded_def)
  have x: "softmax_exp fp input (int n) ?m 0 (out, 0) = Inr (map ?e [0..<n] @ drop n out, float_sum fp ?e n)"
    using softmax_exp_ref[of n 0 n out ?e fp input ?m, OF _ _ assms(2) e] by simp
  let ?o = "map ?e [0..<n] @ drop n out"
  have lo: "n \<le> length ?o" using assms(2) by simp
  have nm: "softmax_norm fp (int n) (float_sum fp ?e n) 0 ?o
      = Inr (map (\<lambda>j. fround fp (?o ! j / float_sum fp ?e n)) [0..<n] @ drop n ?o)"
    using softmax_norm_ref[of n 0 n ?o fp "float_sum fp ?e n", OF _ _ lo] by simp
  have mp: "map (\<lambda>j. fround fp (?o ! j / float_sum fp ?e n)) [0..<n] = spec_Softmax fp input n"
    unfolding spec_Softmax_def by (rule map_cong) (auto simp: nth_append)
  have dr: "drop n ?o = drop n out" by simp
  show ?thesis
    unfolding CNN_Softmax_def Let_def softmax_max_whole[OF assms(1)] x
    by (simp add: nm mp dr del: drop_append)
qed

subsection \<open>Rounded summation\<close>

lemma binary32_0: "binary32 0"
  unfolding binary32_def by (rule exI[of _ 0], rule exI[of _ 0]) simp

lemma binary32_1: "binary32 1"
  unfolding binary32_def by (rule exI[of _ 1], rule exI[of _ 0]) simp

lemma unit_mono: "binary32_unit fp \<Longrightarrow> x \<le> y \<Longrightarrow> fround fp x \<le> fround fp y"
  by (simp add: binary32_unit_def)

lemma unit_0: "binary32_unit fp \<Longrightarrow> fround fp 0 = 0"
  using binary32_0 by (simp add: binary32_unit_def exact_on_binary32_def)

lemma unit_1: "binary32_unit fp \<Longrightarrow> fround fp 1 = 1"
  using binary32_1 by (simp add: binary32_unit_def exact_on_binary32_def)

lemma unit_idem: "binary32_unit fp \<Longrightarrow> fround fp (fround fp x) = fround fp x"
  by (simp add: binary32_unit_def)

lemma unit_err: "binary32_unit fp \<Longrightarrow> \<bar>fround fp x - x\<bar> \<le> \<bar>x\<bar> / 2 ^ 24 + 1 / 2 ^ 150"
  by (simp add: binary32_unit_def)

lemma ref_max_ge: "i < n \<Longrightarrow> d i \<le> ref_max d n"
  by (induction n) (auto simp: less_Suc_eq max_def)

lemma ref_max_attained: "1 \<le> n \<Longrightarrow> \<exists>k<n. ref_max d n = d k"
proof (induction n)
  case 0
  then show ?case by simp
next
  case (Suc n)
  show ?case
  proof (cases "n = 0")
    case True
    then show ?thesis by simp
  next
    case False
    with Suc.IH obtain k where "k < n" "ref_max d n = d k" by auto
    then show ?thesis by (cases "ref_max d n \<le> d n") (auto simp: max_def less_Suc_eq)
  qed
qed

lemma ref_exp_range:
  assumes u: "binary32_unit fp" and i: "i < n"
  shows "0 \<le> ref_exp fp input n i" "ref_exp fp input n i \<le> 1"
        "fround fp (ref_exp fp input n i) = ref_exp fp input n i"
proof -
  have "decoded fp input i - ref_max (decoded fp input) n \<le> 0"
    using ref_max_ge[OF i, of "decoded fp input"] by simp
  from unit_mono[OF u this] have "fround fp (decoded fp input i - ref_max (decoded fp input) n) \<le> 0"
    by (simp add: unit_0[OF u])
  with u show "0 \<le> ref_exp fp input n i" "ref_exp fp input n i \<le> 1"
        "fround fp (ref_exp fp input n i) = ref_exp fp input n i"
    by (simp_all add: binary32_unit_def ref_exp_def)
qed

lemma ref_exp_one:
  assumes u: "binary32_unit fp" and n: "1 \<le> n"
  shows "\<exists>k<n. ref_exp fp input n k = 1"
proof -
  from ref_max_attained[OF n, of "decoded fp input"] obtain k where
    k: "k < n" "ref_max (decoded fp input) n = decoded fp input k" by blast
  have "ref_exp fp input n k = 1"
    using u by (simp add: ref_exp_def k(2) unit_0[OF u] binary32_unit_def)
  with k(1) show ?thesis by blast
qed

lemma float_sum_float:
  "binary32_unit fp \<Longrightarrow> fround fp (float_sum fp e m) = float_sum fp e m"
  by (cases m) (simp_all add: unit_0 unit_idem)

lemma float_sum_step_ge:
  assumes u: "binary32_unit fp" and e: "0 \<le> e m"
  shows "float_sum fp e m \<le> float_sum fp e (Suc m)"
proof -
  have "fround fp (float_sum fp e m) \<le> fround fp (float_sum fp e m + e m)"
    using e by (intro unit_mono[OF u]) simp
  then show ?thesis by (simp add: float_sum_float[OF u])
qed

lemma float_sum_nonneg:
  assumes u: "binary32_unit fp" and e: "\<forall>i<n. 0 \<le> e i"
  shows "m \<le> n \<Longrightarrow> 0 \<le> float_sum fp e m"
proof (induction m)
  case 0
  then show ?case by simp
next
  case (Suc m)
  then have "0 \<le> float_sum fp e m" "0 \<le> e m" using e by simp_all
  with float_sum_step_ge[OF u, of e m] show ?case by linarith
qed

lemma float_sum_ge_term:
  assumes u: "binary32_unit fp" and e: "\<forall>i<n. 0 \<le> e i \<and> fround fp (e i) = e i"
  shows "m \<le> n \<Longrightarrow> i < m \<Longrightarrow> e i \<le> float_sum fp e m"
proof (induction m)
  case 0
  then show ?case by simp
next
  case (Suc m)
  have em: "0 \<le> e m" using Suc.prems e by simp
  show ?case
  proof (cases "i = m")
    case True
    have s: "0 \<le> float_sum fp e m"
      using float_sum_nonneg[OF u, of n e m] e Suc.prems by simp
    have "fround fp (e m) \<le> fround fp (float_sum fp e m + e m)"
      using s by (intro unit_mono[OF u]) simp
    then show ?thesis using True e Suc.prems by simp
  next
    case False
    with Suc have "e i \<le> float_sum fp e m" by simp
    with float_sum_step_ge[OF u, of e m] em show ?thesis by linarith
  qed
qed

lemma float_sum_error:
  assumes u: "binary32_unit fp" and e: "\<forall>i<n. 0 \<le> e i"
  shows "m \<le> n \<Longrightarrow> m \<le> 100 \<Longrightarrow>
     \<bar>float_sum fp e m - (\<Sum>i<m. e i)\<bar> \<le> real m * (6 / 10 ^ 8) * (\<Sum>i<m. e i) + real m / 10 ^ 40"
proof (induction m)
  case 0
  then show ?case by simp
next
  case (Suc m)
  define s where "s = float_sum fp e m"
  define S where "S = (\<Sum>i<m. e i)"
  define S' where "S' = S + e m"
  define r where "r = real m"
  define E where "E = \<bar>s - S\<bar>"
  have r: "0 \<le> r" "r \<le> 99" using Suc.prems by (simp_all add: r_def)
  have em: "0 \<le> e m" using e Suc.prems by simp
  have S0: "0 \<le> S" unfolding S_def using e Suc.prems by (intro sum_nonneg) simp
  have S'0: "0 \<le> S'" using S0 em by (simp add: S'_def)
  have s0: "0 \<le> s" unfolding s_def using float_sum_nonneg[OF u e, of m] Suc.prems by simp
  have IH: "E \<le> r * (6 / 10 ^ 8) * S + r / 10 ^ 40"
    using Suc by (simp add: E_def s_def S_def r_def)
  have SS': "S \<le> S'" using em by (simp add: S'_def)
  have "r * (6 / 10 ^ 8) * S \<le> r * (6 / 10 ^ 8) * S'"
    using r SS' by (intro mult_left_mono) simp_all
  with IH have E: "E \<le> r * (6 / 10 ^ 8) * S' + r / 10 ^ 40" by linarith
  have rnd: "\<bar>fround fp (s + e m) - (s + e m)\<bar> \<le> (s + e m) / 2 ^ 24 + 1 / 2 ^ 150"
    using unit_err[OF u, of "s + e m"] s0 em by simp
  have sS: "s \<le> S + E" by (simp add: E_def)
  have tri: "\<bar>fround fp (s + e m) - S'\<bar> \<le> \<bar>fround fp (s + e m) - (s + e m)\<bar> + E"
    by (simp add: E_def S'_def)
  have b1: "\<bar>fround fp (s + e m) - S'\<bar> \<le> (S' + E) / 2 ^ 24 + 1 / 2 ^ 150 + E"
  proof -
    have "(s + e m) / 2 ^ 24 \<le> (S' + E) / 2 ^ 24"
      using sS by (simp add: S'_def divide_right_mono)
    with rnd tri show ?thesis by linarith
  qed
  define P where "P = r * S'"
  have P0: "0 \<le> P" using r S'0 by (simp add: P_def)
  have P99: "P \<le> 99 * S'" unfolding P_def using r S'0 by (intro mult_right_mono) simp_all
  have E': "E \<le> (6 / 10 ^ 8) * P + r / 10 ^ 40" using E by (simp add: P_def mult.assoc mult.commute)
  have goal: "(S' + E) / 2 ^ 24 + 1 / 2 ^ 150 + E \<le> (6 / 10 ^ 8) * (P + S') + (r + 1) / 10 ^ 40"
    using E' P0 P99 r S'0 by (simp add: field_simps) 
  have "real (Suc m) * (6 / 10 ^ 8) * (\<Sum>i<Suc m. e i) + real (Suc m) / 10 ^ 40
        = (6 / 10 ^ 8) * (P + S') + (r + 1) / 10 ^ 40"
    by (simp add: P_def r_def S'_def S_def algebra_simps)
  moreover have "float_sum fp e (Suc m) - (\<Sum>i<Suc m. e i) = fround fp (s + e m) - S'"
    by (simp add: s_def S'_def S_def)
  ultimately show ?case using b1 goal by simp
qed

subsection \<open>Normalisation\<close>

lemma normalised_range:
  assumes u: "binary32_unit fp"
      and e: "\<forall>i<n. 0 \<le> e i \<and> fround fp (e i) = e i"
      and one: "\<exists>k<n. e k = 1" and i: "i < n"
  shows "0 \<le> fround fp (e i / float_sum fp e n)" "fround fp (e i / float_sum fp e n) \<le> 1"
proof -
  from one obtain k where k: "k < n" "e k = 1" by blast
  have s1: "1 \<le> float_sum fp e n" using float_sum_ge_term[OF u e, of n k] k by simp
  have ei: "0 \<le> e i" "e i \<le> float_sum fp e n"
    using e i float_sum_ge_term[OF u e, of n i] by simp_all
  have q0: "0 \<le> e i / float_sum fp e n" using ei s1 by simp
  have q1: "e i / float_sum fp e n \<le> 1" using ei s1 by simp
  show "0 \<le> fround fp (e i / float_sum fp e n)"
    using unit_mono[OF u q0] by (simp add: unit_0[OF u])
  show "fround fp (e i / float_sum fp e n) \<le> 1"
    using unit_mono[OF u q1] by (simp add: unit_1[OF u])
qed

lemma normalised_sum:
  assumes u: "binary32_unit fp"
      and e: "\<forall>i<n. 0 \<le> e i \<and> fround fp (e i) = e i"
      and one: "\<exists>k<n. e k = 1" and n: "n \<le> 100"
  shows "\<bar>(\<Sum>i<n. fround fp (e i / float_sum fp e n)) - 1\<bar> \<le> 1 / 100000"
proof -
  define s where "s = float_sum fp e n"
  define S where "S = (\<Sum>i<n. e i)"
  define R where "R = S / s"
  from one obtain k where k: "k < n" "e k = 1" by blast
  have e0: "\<forall>i<n. 0 \<le> e i" using e by simp
  have s1: "1 \<le> s" unfolding s_def using float_sum_ge_term[OF u e, of n k] k by simp
  have S0: "0 \<le> S" unfolding S_def using e by (intro sum_nonneg) simp
  have rn: "real n \<le> 100" using n by simp
  have err: "\<bar>s - S\<bar> \<le> real n * (6 / 10 ^ 8) * S + real n / 10 ^ 40"
    unfolding s_def S_def using float_sum_error[OF u e0, of n] n by simp
  define P where "P = real n * S"
  have P: "P \<le> 100 * S" unfolding P_def using rn S0 by (intro mult_right_mono) simp_all
  have err': "\<bar>s - S\<bar> \<le> (6 / 10 ^ 8) * P + real n / 10 ^ 40"
    using err by (simp add: P_def mult.assoc mult.commute)
  have E: "\<bar>s - S\<bar> \<le> (6 / 10 ^ 6) * S + 1 / 10 ^ 38"
    using err' P rn by (simp add: field_simps)
  have SK: "S \<le> (100002 / 100000) * s" using E s1 by (simp add: abs_le_iff) 
  have R0: "0 \<le> R" unfolding R_def using S0 s1 by simp
  have RK: "R \<le> 100002 / 100000"
    unfolding R_def using SK s1 by (simp add: pos_divide_le_eq)
  have R1: "\<bar>R - 1\<bar> \<le> (6 / 10 ^ 6) * R + 1 / 10 ^ 38"
  proof -
    have "R - 1 = (S - s) / s" unfolding R_def using s1 by (simp add: diff_divide_distrib)
    then have "\<bar>R - 1\<bar> = \<bar>S - s\<bar> / \<bar>s\<bar>" by simp
    also have "\<dots> = \<bar>s - S\<bar> / s" using s1 by (simp add: abs_minus_commute)
    also have "\<bar>s - S\<bar> / s \<le> ((6 / 10 ^ 6) * S + 1 / 10 ^ 38) / s"
      using E s1 by (intro divide_right_mono) simp_all
    also have "\<dots> = (6 / 10 ^ 6) * R + (1 / 10 ^ 38) / s"
      by (simp add: R_def add_divide_distrib)
    also have "\<dots> \<le> (6 / 10 ^ 6) * R + 1 / 10 ^ 38"
    proof -
      have "(1 / 10 ^ 38) / s \<le> (1 / 10 ^ 38) / 1"
        using s1 by (intro divide_left_mono) simp_all
      then show ?thesis by simp
    qed
    finally show ?thesis .
  qed
  have q: "(\<Sum>i<n. e i / s) = R" by (simp add: R_def S_def sum_divide_distrib)
  have d: "\<bar>fround fp (e i / s) - e i / s\<bar> \<le> (e i / s) / 2 ^ 24 + 1 / 2 ^ 150" if "i < n" for i
  proof -
    have "0 \<le> e i / s" using e that s1 by simp
    with unit_err[OF u, of "e i / s"] show ?thesis by simp
  qed
  have "\<bar>(\<Sum>i<n. fround fp (e i / s)) - R\<bar> = \<bar>\<Sum>i<n. (fround fp (e i / s) - e i / s)\<bar>"
    by (simp add: q[symmetric] sum_subtractf)
  also have "\<dots> \<le> (\<Sum>i<n. \<bar>fround fp (e i / s) - e i / s\<bar>)" by (rule sum_abs)
  also have "\<dots> \<le> (\<Sum>i<n. (e i / s) / 2 ^ 24 + 1 / 2 ^ 150)"
    by (intro sum_mono d) simp
  also have "\<dots> = R / 2 ^ 24 + real n / 2 ^ 150"
  proof -
    have "(\<Sum>i<n. (e i / s) / 2 ^ 24 + 1 / 2 ^ 150)
            = (\<Sum>i<n. e i / s) / 2 ^ 24 + (\<Sum>i<n. 1 / 2 ^ 150 :: real)"
      by (simp only: sum.distrib sum_divide_distrib)
    also have "(\<Sum>i<n. 1 / 2 ^ 150 :: real) = real n / 2 ^ 150" by simp
    finally show ?thesis by (simp only: q)
  qed
  also have "\<dots> \<le> R / 2 ^ 24 + 100 / 2 ^ 150"
    using rn by (simp add: divide_right_mono)
  finally have P: "\<bar>(\<Sum>i<n. fround fp (e i / s)) - R\<bar> \<le> R / 2 ^ 24 + 100 / 2 ^ 150" .
  have "\<bar>(\<Sum>i<n. fround fp (e i / s)) - 1\<bar> \<le> \<bar>(\<Sum>i<n. fround fp (e i / s)) - R\<bar> + \<bar>R - 1\<bar>"
    by simp
  with P R1 have "\<bar>(\<Sum>i<n. fround fp (e i / s)) - 1\<bar>
       \<le> R / 2 ^ 24 + 100 / 2 ^ 150 + (6 / 10 ^ 6) * R + 1 / 10 ^ 38" by linarith
  also have "\<dots> \<le> 1 / 100000" using R0 RK by simp
  finally show ?thesis by (simp add: s_def)
qed

lemma sum_list_spec_Softmax:
  "sum_list (spec_Softmax fp input n)
     = (\<Sum>i<n. fround fp (ref_exp fp input n i / float_sum fp (ref_exp fp input n) n))"
  by (simp add: spec_Softmax_def interv_sum_list_conv_sum_set_nat atLeast0LessThan)

subsection \<open>Absorption\<close>

lemma rne_below_half: "of_int k \<le> y \<Longrightarrow> y < of_int k + 1 / 2 \<Longrightarrow> rne y = k"
proof -
  assume a: "of_int k \<le> y" "y < of_int k + 1 / 2"
  then have "\<lfloor>y\<rfloor> = k" by (intro floor_unique) simp_all
  with a show ?thesis by (simp add: rne_def)
qed

lemma binade1_outside: "\<not> (1 \<le> x \<and> x < 2) \<Longrightarrow> fround fpu_binade1 x = x"
  by (auto simp: fpu_binade1_def)

lemma binade1_one: "fround fpu_binade1 1 = 1"
  using rne_below_half[of 8388608 "1 * 2 ^ 23"] by (simp add: fpu_binade1_def)

lemma binade1_absorb: "fround fpu_binade1 (1 + 16757323 / 2 ^ 48) = 1"
  using rne_below_half[of 8388608 "(1 + 16757323 / 2 ^ 48) * 2 ^ 23"]
  by (simp add: fpu_binade1_def)

lemma decoded_170:
  "decoded fpu_binade1 logits_170 i = (if i = 0 then 0 else - 4259 / 256)"
  by (simp add: decoded_def CNN_FixedToFloat_def logits_170_def Q8_8_SCALE_def binade1_outside)

lemma ref_max_170: "ref_max (decoded fpu_binade1 logits_170) n = 0"
  by (induction n) (simp_all add: decoded_170)

lemma ref_exp_170:
  "ref_exp fpu_binade1 logits_170 n i = (if i = 0 then 1 else 16757323 / 2 ^ 48)"
  by (simp add: ref_exp_def ref_max_170 decoded_170 binade1_outside) (simp add: fpu_binade1_def)

lemma float_sum_170: "float_sum fpu_binade1 (ref_exp fpu_binade1 logits_170 n) (Suc m) = 1"
proof (induction m)
  case 0
  then show ?case by (simp add: ref_exp_170 binade1_one)
next
  case (Suc m)
  have "float_sum fpu_binade1 (ref_exp fpu_binade1 logits_170 n) (Suc (Suc m))
      = fround fpu_binade1 (float_sum fpu_binade1 (ref_exp fpu_binade1 logits_170 n) (Suc m)
          + ref_exp fpu_binade1 logits_170 n (Suc m))" by simp
  also have "\<dots> = fround fpu_binade1 (1 + 16757323 / 2 ^ 48)"
    by (simp only: Suc.IH ref_exp_170) simp
  finally show ?case by (simp only: binade1_absorb)
qed

lemma spec_Softmax_170:
  "spec_Softmax fpu_binade1 logits_170 (Suc m) = 1 # replicate m (16757323 / 2 ^ 48)"
proof -
  have "spec_Softmax fpu_binade1 logits_170 (Suc m)
      = map (\<lambda>i. if i = 0 then 1 else 16757323 / 2 ^ 48) [0..<Suc m]"
    unfolding spec_Softmax_def float_sum_170 ref_exp_170
    by (rule map_cong) (simp_all add: binade1_one binade1_outside)
  also have "\<dots> = 1 # map (\<lambda>i. 16757323 / 2 ^ 48) [Suc 0..<Suc m]"
    by (subst upt_rec) (simp del: upt_Suc)
  also have "map (\<lambda>i. 16757323 / 2 ^ 48 :: real) [Suc 0..<Suc m] = replicate m (16757323 / 2 ^ 48)"
    by (simp add: map_replicate_const del: upt_Suc)
  finally show ?thesis .
qed

subsection \<open>The unit of the example rounds to nearest\<close>

lemma real_of_int_le: "(a::int) \<le> b \<Longrightarrow> real_of_int a \<le> real_of_int b"
  by simp

lemma real_of_int_less: "(a::int) < b \<Longrightarrow> real_of_int a < real_of_int b"
  by simp

lemma rne_of_int: "rne (of_int k) = k"
  by (rule rne_below_half) simp_all

lemma rne_floor: "\<lfloor>y\<rfloor> \<le> rne y" "rne y \<le> \<lfloor>y\<rfloor> + 1"
  by (simp_all add: rne_def Let_def)

lemma rne_near: "\<bar>of_int (rne y) - y\<bar> \<le> 1 / 2"
proof -
  have "of_int \<lfloor>y\<rfloor> \<le> y" "y < of_int \<lfloor>y\<rfloor> + 1" by linarith+
  then show ?thesis by (auto simp: rne_def Let_def)
qed

lemma rne_mono: assumes "x \<le> y" shows "rne x \<le> rne y"
proof (cases "\<lfloor>x\<rfloor> = \<lfloor>y\<rfloor>")
  case True
  with assms show ?thesis by (auto simp: rne_def Let_def)
next
  case False
  with assms have "\<lfloor>x\<rfloor> + 1 \<le> \<lfloor>y\<rfloor>" using floor_mono[OF assms] by linarith
  with rne_floor(2)[of x] rne_floor(1)[of y] show ?thesis by linarith
qed

lemma binade1_in:
  assumes "1 \<le> x" "x < 2"
  shows "fround fpu_binade1 x = of_int (rne (x * 2 ^ 23)) / 2 ^ 23"
    and "2 ^ 23 \<le> rne (x * 2 ^ 23)" and "rne (x * 2 ^ 23) \<le> 2 ^ 24"
proof -
  show "fround fpu_binade1 x = of_int (rne (x * 2 ^ 23)) / 2 ^ 23"
    using assms by (simp add: fpu_binade1_def)
  have "rne (of_int (2 ^ 23)) \<le> rne (x * 2 ^ 23)" using assms by (intro rne_mono) simp
  then show "2 ^ 23 \<le> rne (x * 2 ^ 23)" by (simp only: rne_of_int)
  have "rne (x * 2 ^ 23) \<le> rne (of_int (2 ^ 24))" using assms by (intro rne_mono) simp
  then show "rne (x * 2 ^ 23) \<le> 2 ^ 24" by (simp only: rne_of_int)
qed

lemma binade1_range:
  assumes "1 \<le> x" "x < 2"
  shows "1 \<le> fround fpu_binade1 x" "fround fpu_binade1 x \<le> 2"
proof -
  note b = binade1_in[OF assms]
  have "(2 ^ 23 :: real) \<le> of_int (rne (x * 2 ^ 23))" using real_of_int_le[OF b(2)] by simp
  then show "1 \<le> fround fpu_binade1 x" unfolding b(1) by simp
  have "of_int (rne (x * 2 ^ 23)) \<le> (2 ^ 24 :: real)" using real_of_int_le[OF b(3)] by simp
  then show "fround fpu_binade1 x \<le> 2" unfolding b(1) by simp
qed

lemma binade1_mono: assumes "x \<le> y" shows "fround fpu_binade1 x \<le> fround fpu_binade1 y"
proof (cases "1 \<le> x \<and> x < 2")
  case x: True
  show ?thesis
  proof (cases "y < 2")
    case True
    have "rne (x * 2 ^ 23) \<le> rne (y * 2 ^ 23)" using assms by (intro rne_mono) simp
    then have "real_of_int (rne (x * 2 ^ 23)) \<le> real_of_int (rne (y * 2 ^ 23))"
      by (rule real_of_int_le)
    then show ?thesis using x True assms
      by (simp add: binade1_in(1) divide_right_mono)
  next
    case False
    then show ?thesis using binade1_range(2)[of x] x by (simp add: binade1_outside)
  qed
next
  case x: False
  show ?thesis
  proof (cases "1 \<le> y \<and> y < 2")
    case True
    then show ?thesis using binade1_range(1)[of y] x assms by (simp add: binade1_outside)
  next
    case False
    then show ?thesis using x assms by (simp add: binade1_outside)
  qed
qed

lemma binade1_idem: "fround fpu_binade1 (fround fpu_binade1 x) = fround fpu_binade1 x"
proof (cases "1 \<le> x \<and> x < 2")
  case True
  then have x: "1 \<le> x" "x < 2" by simp_all
  note b = binade1_in[OF x]
  define k where "k = rne (x * 2 ^ 23)"
  have r: "fround fpu_binade1 x = of_int k / 2 ^ 23" by (simp add: b(1) k_def)
  show ?thesis
  proof (cases "k = 2 ^ 24")
    case True
    then have "fround fpu_binade1 x = 2" by (simp add: r)
    then show ?thesis by (simp add: binade1_outside)
  next
    case False
    then have "k < 2 ^ 24" "2 ^ 23 \<le> k" using b(2,3) by (simp_all add: k_def)
    then have "real_of_int k < 2 ^ 24" "(2 ^ 23 :: real) \<le> real_of_int k"
      using real_of_int_less[of k "2 ^ 24"] real_of_int_le[of "2 ^ 23" k] by simp_all
    then have in2: "1 \<le> of_int k / (2 ^ 23 :: real)" "of_int k / (2 ^ 23 :: real) < 2" by simp_all
    have "rne (of_int k / 2 ^ 23 * 2 ^ 23) = k" using rne_of_int[of k] by simp
    then show ?thesis unfolding r by (simp only: binade1_in(1)[OF in2])
  qed
next
  case False
  then show ?thesis by (simp add: binade1_outside)
qed

lemma binade1_err: "\<bar>fround fpu_binade1 x - x\<bar> \<le> \<bar>x\<bar> / 2 ^ 24 + 1 / 2 ^ 150"
proof (cases "1 \<le> x \<and> x < 2")
  case True
  then have x: "1 \<le> x" "x < 2" by simp_all
  have "fround fpu_binade1 x - x = (of_int (rne (x * 2 ^ 23)) - x * 2 ^ 23) / 2 ^ 23"
    by (simp add: binade1_in(1)[OF x] diff_divide_distrib)
  then have "\<bar>fround fpu_binade1 x - x\<bar> = \<bar>of_int (rne (x * 2 ^ 23)) - x * 2 ^ 23\<bar> / \<bar>2 ^ 23\<bar>"
    by (simp only: abs_divide)
  also have "\<bar>2 ^ 23 :: real\<bar> = 2 ^ 23" by simp
  also have "\<bar>of_int (rne (x * 2 ^ 23)) - x * 2 ^ 23\<bar> / 2 ^ 23 \<le> (1 / 2) / 2 ^ 23" using rne_near[of "x * 2 ^ 23"] by (intro divide_right_mono) simp_all
  also have "\<dots> \<le> \<bar>x\<bar> / 2 ^ 24" using x by simp
  finally show ?thesis by simp
next
  case False
  then show ?thesis by (simp add: binade1_outside)
qed

lemma two_powr_m24: "(2::real) powr of_int (- 24) = 1 / 2 ^ 24"
proof -
  have "(2::real) powr of_int (- 24) = 1 / (2 powr 24)" by (simp add: powr_minus_divide)
  also have "(2::real) powr 24 = 2 ^ 24" by (rule powr_numeral) simp
  finally show ?thesis .
qed

lemma binary32_binade_int:
  assumes b: "binary32 x" and x: "1 \<le> x"
  shows "\<exists>k :: int. x * 2 ^ 23 = of_int k"
proof -
  from b obtain m e :: int where m: "\<bar>m\<bar> < 2 ^ 24" and e: "- 149 \<le> e" "e \<le> 104"
    and xe: "x = of_int m * 2 powr of_int e" unfolding binary32_def by blast
  show ?thesis
  proof (cases "- 23 \<le> e")
    case True
    define j where "j = nat (e + 23)"
    have "(2::real) powr of_int e * 2 ^ 23 = 2 powr of_int e * 2 powr 23"
      by simp
    also have "\<dots> = 2 powr (of_int e + 23)" by (simp add: powr_add)
    also have "of_int e + (23 :: real) = real j" using True by (simp add: j_def)
    also have "(2::real) powr real j = 2 ^ j" by (simp add: powr_realpow)
    finally have "x * 2 ^ 23 = of_int (m * 2 ^ j)" by (simp add: xe mult.assoc)
    then show ?thesis by blast
  next
    case False
    then have "of_int e \<le> (of_int (- 24) :: real)" by simp
    then have "(2::real) powr of_int e \<le> 2 powr of_int (- 24)" by (intro powr_mono) simp_all
    then have p: "(2::real) powr of_int e \<le> 1 / 2 ^ 24" by (simp only: two_powr_m24)
    have p0: "0 \<le> (2::real) powr of_int e" by simp
    have "real_of_int \<bar>m\<bar> < 2 ^ 24" using real_of_int_less[OF m] by simp
    then have mr: "\<bar>real_of_int m\<bar> < 2 ^ 24" by simp
    have "of_int m * 2 powr of_int e \<le> \<bar>real_of_int m\<bar> * 2 powr of_int e"
      by (intro mult_right_mono) simp_all
    also have "\<dots> \<le> \<bar>real_of_int m\<bar> * (1 / 2 ^ 24)" using p by (intro mult_left_mono) simp_all
    also have "\<dots> < 1" using mr by simp
    finally have "x < 1" by (simp add: xe)
    with x show ?thesis by simp
  qed
qed

lemma binade1_exact: "exact_on_binary32 fpu_binade1"
  unfolding exact_on_binary32_def
proof (intro allI impI)
  fix x assume b: "binary32 x"
  show "fround fpu_binade1 x = x"
  proof (cases "1 \<le> x \<and> x < 2")
    case True
    then have x: "1 \<le> x" "x < 2" by simp_all
    from binary32_binade_int[OF b x(1)] obtain k :: int where k: "x * 2 ^ 23 = of_int k" by blast
    have "rne (x * 2 ^ 23) = k" unfolding k by (rule rne_of_int)
    then have "fround fpu_binade1 x = of_int k / 2 ^ 23" by (simp add: binade1_in(1)[OF x])
    also have "\<dots> = x" using k by (simp add: field_simps)
    finally show ?thesis .
  next
    case False
    then show ?thesis by (simp add: binade1_outside)
  qed
qed

lemma binade1_exp:
  assumes "x \<le> 0"
  shows "fround fpu_binade1 (fexp fpu_binade1 x) = fexp fpu_binade1 x"
        "0 \<le> fexp fpu_binade1 x" "fexp fpu_binade1 x \<le> 1"
proof -
  have f: "fexp fpu_binade1 x = (if x = - 4259 / 256 then 16757323 / 2 ^ 48 else exp x)"
    by (simp add: fpu_binade1_def)
  show 0: "0 \<le> fexp fpu_binade1 x" unfolding f by simp
  show 1: "fexp fpu_binade1 x \<le> 1" unfolding f using assms by simp
  show "fround fpu_binade1 (fexp fpu_binade1 x) = fexp fpu_binade1 x"
  proof (cases "fexp fpu_binade1 x = 1")
    case True
    then show ?thesis by (simp add: binade1_one)
  next
    case False
    with 1 show ?thesis by (intro binade1_outside) simp
  qed
qed

lemma binary32_unit_binade1: "binary32_unit fpu_binade1"
  unfolding binary32_unit_def
  using binade1_mono binade1_exact binade1_idem binade1_err binade1_exp
  by (simp add: fpu_binade1_def[of] )

text \<open>
  Claim C1 states the bound for every non-empty array.  Once the rounded sum has reached
  1, an addend below \<open>2\<^sup>-\<^sup>2\<^sup>4\<close> is absorbed: \<open>1 + 16757323 / 2\<^sup>4\<^sup>8\<close> rounds to 1.  For the
  170 logits \<open>0, -4259, \<dots>, -4259\<close> the sum therefore stays 1, the outputs are 1 and
  169 times \<open>16757323 / 2\<^sup>4\<^sup>8\<close>, and they add up to more than \<open>1 + 10\<^sup>-\<^sup>5\<close>.  The unit
  of this run rounds to nearest in the sense of \<open>binary32_unit\<close>.
\<close>

theorem Softmax_sum_counterexample:
  "CNN_Softmax fpu_binade1 logits_170 (replicate 170 0) 170
     = Inr (1 # replicate 169 (16757323 / 2 ^ 48))
   \<and> 1 / 100000 < sum_list (1 # replicate 169 (16757323 / 2 ^ 48 :: real)) - 1"
proof
  have "CNN_Softmax fpu_binade1 logits_170 (replicate 170 0) (int 170)
      = Inr (spec_Softmax fpu_binade1 logits_170 170 @ drop 170 (replicate 170 0))"
    by (rule Softmax_structure) simp_all
  moreover have "spec_Softmax fpu_binade1 logits_170 (Suc 169) = 1 # replicate 169 (16757323 / 2 ^ 48)"
    by (rule spec_Softmax_170)
  ultimately show "CNN_Softmax fpu_binade1 logits_170 (replicate 170 0) 170
     = Inr (1 # replicate 169 (16757323 / 2 ^ 48))" by simp
  show "1 / 100000 < sum_list (1 # replicate 169 (16757323 / 2 ^ 48 :: real)) - 1"
    by (simp add: sum_list_replicate)
qed

text \<open>
  Claim C1, amended.  On a unit that rounds to nearest, for every logit array of
  \<open>N \<ge> 1\<close> elements and an output array with room for them, \<open>CNN_Softmax\<close> writes into
  the first \<open>N\<close> outputs the reference softmax (decode, subtract the maximum decoded
  value, exponentiate, sum, divide by the sum) and leaves the rest as it was; every
  output is in \<open>[0, 1]\<close>; and when \<open>N\<close> is at most \<open>CNN_MAX_CLASSES\<close> the outputs add
  up to 1 within \<open>10\<^sup>-\<^sup>5\<close>.
\<close>

theorem Softmax_normalised:
  assumes u: "binary32_unit fp" and n: "1 \<le> n" and len: "n \<le> length out"
  shows "CNN_Softmax fp input out (int n) = Inr (spec_Softmax fp input n @ drop n out)
       \<and> (\<forall>p \<in> set (spec_Softmax fp input n). 0 \<le> p \<and> p \<le> 1)
       \<and> (n \<le> CNN_MAX_CLASSES \<longrightarrow> \<bar>sum_list (spec_Softmax fp input n) - 1\<bar> \<le> 1 / 100000)"
proof (intro conjI impI ballI)
  have e: "\<forall>i<n. 0 \<le> ref_exp fp input n i \<and> fround fp (ref_exp fp input n i) = ref_exp fp input n i"
    using ref_exp_range[OF u] by simp
  note one = ref_exp_one[OF u n, of input]
  show "CNN_Softmax fp input out (int n) = Inr (spec_Softmax fp input n @ drop n out)"
    by (rule Softmax_structure[OF n len])
  {
    fix p assume "p \<in> set (spec_Softmax fp input n)"
    then obtain i where "i < n"
      "p = fround fp (ref_exp fp input n i / float_sum fp (ref_exp fp input n) n)"
      by (auto simp: spec_Softmax_def)
    with normalised_range[OF u e one, of i] show "0 \<le> p" "p \<le> 1" by simp_all
  }
  assume "n \<le> CNN_MAX_CLASSES"
  then have "n \<le> 100" by (simp add: CNN_MAX_CLASSES_def)
  from normalised_sum[OF u e one this]
  show "\<bar>sum_list (spec_Softmax fp input n) - 1\<bar> \<le> 1 / 100000"
    by (simp add: sum_list_spec_Softmax)
qed

theorem Softmax_normalised_witness:
  "CNN_Softmax fpu_exact logits_flat [0, 0, 0, 9] 3 = Inr [1/3, 1/3, 1/3, 9]
   \<and> \<bar>sum_list [1/3, 1/3, 1/3 :: real] - 1\<bar> \<le> 1 / 100000
   \<and> CNN_Softmax fpu_binade1 logits_170 [0, 0, 0, 9] 3
       = Inr [1, 16757323 / 2 ^ 48, 16757323 / 2 ^ 48, 9]
   \<and> \<bar>sum_list [1, 16757323 / 2 ^ 48, 16757323 / 2 ^ 48 :: real] - 1\<bar> \<le> 1 / 100000"
proof -
  have s: "spec_Softmax fpu_exact logits_flat 3 = [1/3, 1/3, 1/3]"
    by (simp add: spec_Softmax_def ref_exp_def decoded_def CNN_FixedToFloat_def logits_flat_def
        fpu_exact_def eval_nat_numeral upt_rec Q8_8_SCALE_def)
  have u: "binary32_unit fpu_exact"
    by (simp add: binary32_unit_def exact_on_binary32_def fpu_exact_def)
  have s': "spec_Softmax fpu_binade1 logits_170 3 = [1, 16757323 / 2 ^ 48, 16757323 / 2 ^ 48]"
    using spec_Softmax_170[of 2] by (simp add: eval_nat_numeral)
  show ?thesis
    using Softmax_normalised [OF u, of 3 "[0, 0, 0, 9]" logits_flat]
          Softmax_normalised [OF binary32_unit_binade1, of 3 "[0, 0, 0, 9]" logits_170]
    by (simp add: s s' CNN_MAX_CLASSES_def)
qed

end
